theory Spec2Isabelle
  imports Complex_Main "HOL-Library.Word"
begin

unbundle bit_operations_syntax

section \<open>Conventions of the embedding\<close>

text \<open>
  The library is C. A \<^verbatim>\<open>float\<close> is modelled by a real number: the finite values.
  Infinities and NaN are not values of the model; wherever the source divides by a
  quantity that can be zero, the IEEE outcome of that division is written out in the
  definition. The sampler compares and computes exactly; the quantizer rounds to binary32.
  An access outside an array, a dereference of \<^verbatim>\<open>NULL\<close>, a failed \<^verbatim>\<open>assert\<close> and an
  integer division by zero are results of their own (\<open>Inl\<close> of a fault), so none of them
  hides behind a total HOL function.
\<close>

type_synonym f32 = real

datatype fault = OutOfBounds | NullDeref | AssertFailed | DivisionByZero

section \<open>The sampler (sampler.c)\<close>

record txf_sampler =
  ssize :: nat
  temperature :: f32
  topp :: f32
  rng_state :: "64 word"

text \<open>\<^verbatim>\<open>pidx_t\<close>: a candidate of top-p sampling.\<close>

record pidx =
  prob :: f32
  index :: int

text \<open>
  \<^verbatim>\<open>sample_argmax\<close>: the loop runs over \<open>i = 1 .. n - 1\<close> and carries \<open>(max_i, max_p)\<close>.
  It reads \<open>probabilities[0]\<close> whatever \<open>n\<close> is.
\<close>

definition argmax_step :: "f32 list \<Rightarrow> nat \<Rightarrow> nat \<times> f32 \<Rightarrow> nat \<times> f32" where
  "argmax_step probabilities i acc =
     (if probabilities ! i > snd acc then (i, probabilities ! i) else acc)"

definition sample_argmax :: "f32 list \<Rightarrow> nat \<Rightarrow> fault + int" where
  "sample_argmax probabilities n =
     (if probabilities = [] \<or> length probabilities < n then Inl OutOfBounds
      else Inr (int (fst (fold (argmax_step probabilities) [1..<n] (0, probabilities ! 0)))))"

text \<open>
  \<^verbatim>\<open>sample_mult\<close>: the first index at which the running sum exceeds \<open>coin\<close>; \<open>n - 1\<close> when
  the loop ends without one.
\<close>

fun mult_scan :: "f32 list \<Rightarrow> f32 \<Rightarrow> f32 \<Rightarrow> int \<Rightarrow> int option" where
  "mult_scan [] coin cdf i = None"
| "mult_scan (p # ps) coin cdf i =
     (if coin < cdf + p then Some i else mult_scan ps coin (cdf + p) (i + 1))"

definition sample_mult :: "f32 list \<Rightarrow> nat \<Rightarrow> f32 \<Rightarrow> fault + int" where
  "sample_mult probabilities n coin =
     (if length probabilities < n then Inl OutOfBounds
      else case mult_scan (take n probabilities) coin 0 0 of
             Some i \<Rightarrow> Inr i
           | None \<Rightarrow> Inr (int n - 1))"

text \<open>
  \<open>f32_ge_quot x a b\<close> is the C comparison \<^verbatim>\<open>x >= a / b\<close> for finite \<open>x\<close>, \<open>a\<close> and an
  integer \<open>b\<close> converted to float: when \<open>b = 0\<close> the quotient is \<open>+inf\<close> (for \<open>a > 0\<close>),
  \<open>-inf\<close> (for \<open>a < 0\<close>) or NaN (for \<open>a = 0\<close>), and only \<open>-inf\<close> is below a finite \<open>x\<close>.
\<close>

definition f32_ge_quot :: "f32 \<Rightarrow> f32 \<Rightarrow> int \<Rightarrow> bool" where
  "f32_ge_quot x a b = (if b \<noteq> 0 then x \<ge> a / of_int b else a < 0)"

text \<open>
  \<^verbatim>\<open>qsort(probindex, n0, sizeof(pidx_t), compare)\<close>: descending by probability. The C
  library does not say in which order equal keys come out; the model keeps their order.
\<close>

definition qsort_compare :: "pidx list \<Rightarrow> pidx list" where
  "qsort_compare xs = sort_key (\<lambda>e. - prob e) xs"

text \<open>The truncation loop of \<^verbatim>\<open>sample_topp\<close>, with its \<^verbatim>\<open>break\<close>.\<close>

fun topp_truncate :: "pidx list \<Rightarrow> f32 \<Rightarrow> f32 \<Rightarrow> int \<Rightarrow> int \<Rightarrow> f32 \<times> int" where
  "topp_truncate [] tp cumulative_prob i last_idx = (cumulative_prob, last_idx)"
| "topp_truncate (e # es) tp cumulative_prob i last_idx =
     (if cumulative_prob + prob e > tp then (cumulative_prob + prob e, i)
      else topp_truncate es tp (cumulative_prob + prob e) (i + 1) last_idx)"

text \<open>The final loop of \<^verbatim>\<open>sample_topp\<close> over \<open>probindex[0 .. last_idx]\<close>.\<close>

fun topp_pick :: "pidx list \<Rightarrow> f32 \<Rightarrow> f32 \<Rightarrow> int option" where
  "topp_pick [] r cdf = None"
| "topp_pick (e # es) r cdf =
     (if r < cdf + prob e then Some (index e) else topp_pick es r (cdf + prob e))"

definition sample_topp :: "f32 list \<Rightarrow> nat \<Rightarrow> f32 \<Rightarrow> f32 \<Rightarrow> fault + int" where
  "sample_topp probabilities n tp coin =
     (if length probabilities < n then Inl OutOfBounds
      else
        let probindex0 =
              map (\<lambda>i. \<lparr>prob = probabilities ! i, index = int i\<rparr>)
                (filter (\<lambda>i. f32_ge_quot (probabilities ! i) (1 - tp) (int n - 1)) [0..<n]);
            n0 = length probindex0;
            probindex = qsort_compare probindex0;
            (cumulative_prob, last_idx) = topp_truncate probindex tp 0 0 (int n0 - 1);
            r = coin * cumulative_prob
        in case topp_pick (take (nat (last_idx + 1)) probindex) r 0 of
             Some ix \<Rightarrow> Inr ix
           | None \<Rightarrow>
               if last_idx < 0 \<or> int n0 \<le> last_idx then Inl OutOfBounds
               else Inr (index (probindex ! nat last_idx)))"

text \<open>\<^verbatim>\<open>random_u32\<close> and \<^verbatim>\<open>random_f32\<close>: the new state and the value drawn.\<close>

definition random_u32 :: "64 word \<Rightarrow> 64 word \<times> 32 word" where
  "random_u32 state =
     (let s1 = state XOR drop_bit 12 state;
          s2 = s1 XOR push_bit 25 s1;
          s3 = s2 XOR drop_bit 27 s2
      in (s3, ucast (drop_bit 32 (s3 * 0x2545F4914F6CDD1D))))"

definition random_f32 :: "64 word \<Rightarrow> 64 word \<times> f32" where
  "random_f32 state =
     (let (state', u) = random_u32 state
      in (state', real (unat (drop_bit 8 u)) / 16777216))"

text \<open>
  \<^verbatim>\<open>session_softmax\<close> (session.c) on the first \<open>size\<close> entries of \<open>x\<close>, in place. The sum is
  at least \<open>exp 0\<close>, so the division is by a positive number.
\<close>

definition session_softmax :: "f32 list \<Rightarrow> nat \<Rightarrow> f32 list" where
  "session_softmax x sz =
     (let max_val = fold (\<lambda>i m. if x ! i > m then x ! i else m) [1..<sz] (x ! 0);
          e = map (\<lambda>v. exp (v - max_val)) (take sz x);
          s = sum_list e
      in map (\<lambda>v. v / s) e @ drop sz x)"

text \<open>
  \<^verbatim>\<open>clamma_sampler_sample\<close>: the sampler with its generator advanced, the logits as the call
  leaves them (scaled and normalised in place unless the temperature is zero), and the
  token.
\<close>

definition clamma_sampler_sample ::
    "txf_sampler \<Rightarrow> f32 list \<Rightarrow> txf_sampler \<times> f32 list \<times> (fault + int)" where
  "clamma_sampler_sample sampler logits =
     (let (state', coin) = random_f32 (rng_state sampler);
          sampler' = sampler\<lparr>rng_state := state'\<rparr>;
          n = ssize sampler
      in if temperature sampler = 0 then (sampler', logits, sample_argmax logits n)
         else if logits = [] \<or> length logits < n then (sampler', logits, Inl OutOfBounds)
         else
           let scaled = map (\<lambda>v. v / temperature sampler) (take n logits) @ drop n logits;
               probs = session_softmax scaled n
           in if topp sampler \<le> 0 \<or> topp sampler \<ge> 1
              then (sampler', probs, sample_mult probs n coin)
              else (sampler', probs, sample_topp probs n (topp sampler) coin))"

section \<open>The matmul work distributor (smp.c)\<close>

text \<open>
  \<^verbatim>\<open>job_t\<close> and \<^verbatim>\<open>work_t\<close>. Pointers are addresses (numbers); \<open>j_tss\<close> names the session
  state the job belongs to. The fields \<open>i\<close>, \<open>n\<close>, \<open>d\<close>, \<open>dlim\<close> are \<^verbatim>\<open>int\<close> in the source
  and hold values between \<open>0\<close> and \<open>d\<close>, so they are natural numbers here; \<open>d\<close> is not
  negative, and \<^verbatim>\<open>d / count_threads\<close> is the unsigned division. The ring's capacity
  \<^verbatim>\<open>LIBCLAMMA_MAX_THREAD_JOB_QUEUE\<close> is the length of \<open>job_ring\<close>.
\<close>

datatype clamma_job_type = CLAMMA_JOB_MATMUL | CLAMMA_JOB_MATMUL_QT

record job =
  j_tss :: nat
  j_type :: clamma_job_type
  j_xout :: nat
  j_x :: nat
  j_w1 :: nat
  j_qt_x :: nat
  j_qt_w :: nat
  j_i :: nat
  j_n :: nat
  j_d :: nat
  j_dlim :: nat

record work =
  job_ring :: "job list"
  job_head :: nat
  job_tail :: nat

text \<open>The fields both dispatchers write in a slot for band \<open>m\<close> starting at row \<open>part\<close>.\<close>

definition band_job :: "job \<Rightarrow> nat \<Rightarrow> nat \<Rightarrow> nat \<Rightarrow> nat \<Rightarrow> nat \<Rightarrow> job" where
  "band_job j part n d m count_threads =
     j\<lparr>j_i := part, j_n := n, j_d := d,
       j_dlim := (if m = count_threads - 1 then d else part + d div count_threads)\<rparr>"

text \<open>
  The loop \<^verbatim>\<open>for (m = 0; m < count_threads; m++)\<close> of \<^verbatim>\<open>session_matmul\<close> and
  \<^verbatim>\<open>session_matmul_qt\<close>, run under the ring's mutex. The two functions differ in the job
  type and pointer fields they store (\<open>fill\<close>) and in the two \<^verbatim>\<open>assert\<close>s, which only
  \<^verbatim>\<open>session_matmul\<close> has (\<open>asserts\<close>). The state is the ring and the \<^verbatim>\<open>queued\<close> counter of
  the session state that dispatches. Posting the workers' semaphores afterwards is not
  modelled.
\<close>

function dispatch_loop ::
    "bool \<Rightarrow> (job \<Rightarrow> job) \<Rightarrow> nat \<Rightarrow> nat \<Rightarrow> nat \<Rightarrow> nat \<Rightarrow> nat \<Rightarrow> work \<times> int
       \<Rightarrow> fault + work \<times> int" where
  "dispatch_loop asserts fill n d count_threads m part (w, queued) =
     (if m < count_threads then
        if length (job_ring w) \<le> job_head w then Inl OutOfBounds
        else
          let j = band_job (fill (job_ring w ! job_head w)) part n d m count_threads;
              w' = w\<lparr>job_ring := (job_ring w)[job_head w := j],
                     job_head := (job_head w + 1) mod length (job_ring w)\<rparr>
          in if asserts \<and> job_head w' = job_tail w' then Inl AssertFailed
             else if asserts \<and> \<not> queued + 1 < int (length (job_ring w)) then Inl AssertFailed
             else dispatch_loop asserts fill n d count_threads (m + 1)
                    (part + d div count_threads) (w', queued + 1)
      else Inr (w, queued))"
  by pat_completeness auto
termination
  by (relation "measure (\<lambda>(a, f, n, d, ct, m, p, s). ct - m)") auto

declare dispatch_loop.simps [simp del]

definition session_matmul ::
    "nat \<Rightarrow> work \<times> int \<Rightarrow> nat \<Rightarrow> nat \<Rightarrow> nat \<Rightarrow> nat \<Rightarrow> nat \<Rightarrow> nat \<Rightarrow> fault + work \<times> int" where
  "session_matmul count_threads s tss xout x w1 n d =
     dispatch_loop True
       (\<lambda>j. j\<lparr>j_tss := tss, j_type := CLAMMA_JOB_MATMUL, j_xout := xout, j_x := x, j_w1 := w1\<rparr>)
       n d count_threads 0 0 s"

definition session_matmul_qt ::
    "nat \<Rightarrow> work \<times> int \<Rightarrow> nat \<Rightarrow> nat \<Rightarrow> nat \<Rightarrow> nat \<Rightarrow> nat \<Rightarrow> nat \<Rightarrow> fault + work \<times> int" where
  "session_matmul_qt count_threads s tss xout x w1 n d =
     dispatch_loop False
       (\<lambda>j. j\<lparr>j_tss := tss, j_type := CLAMMA_JOB_MATMUL_QT, j_xout := xout, j_qt_x := x,
              j_qt_w := w1\<rparr>)
       n d count_threads 0 0 s"

text \<open>A slot of the ring as static storage starts out: all zero.\<close>

definition job_zero :: job where
  "job_zero = \<lparr>j_tss = 0, j_type = CLAMMA_JOB_MATMUL, j_xout = 0, j_x = 0, j_w1 = 0, j_qt_x = 0,
           j_qt_w = 0, j_i = 0, j_n = 0, j_d = 0, j_dlim = 0\<rparr>"

section \<open>The quantizer (session.c, txf.c)\<close>

subsection \<open>The float division and product\<close>

text \<open>
  What the quantizer stores depends on how its one division and the dequantizer's one product
  round, so these two operations are modelled as binary32 performs them: the exact result,
  rounded to the nearest value with 24 significant bits, a tie to the even one, subnormals
  included. \<open>f32_expo x\<close> is the exponent of the binade of \<open>x\<close>, \<open>- 126\<close> for a subnormal
  and at most 127; \<open>rnd32\<close> rounds at the spacing of that binade. This is the
  arithmetic of a build that evaluates \<^verbatim>\<open>float\<close> expressions in \<^verbatim>\<open>float\<close>, as on x86-64 and
  AArch64. A result of magnitude \<open>2 ^ 128\<close> or more is an infinity in C and not a value of
  the model, nor is the result of a division by zero; the callers below write the latter out.
\<close>

definition ties_even :: "real \<Rightarrow> int" where
  "ties_even y =
     (let n = \<lfloor>y\<rfloor>; r = y - of_int n
      in if r < 1 / 2 then n else if 1 / 2 < r then n + 1 else if even n then n else n + 1)"

definition f32_expo :: "real \<Rightarrow> int" where
  "f32_expo x = int (length (takeWhile (\<lambda>k. 2 powi (int k - 125) \<le> \<bar>x\<bar>) [0..<253])) - 126"

definition rnd32 :: "real \<Rightarrow> f32" where
  "rnd32 x = (let u = 2 powi (f32_expo x - 23) in of_int (ties_even (x / u)) * u)"

definition f32_div :: "f32 \<Rightarrow> f32 \<Rightarrow> f32" where
  "f32_div x y = rnd32 (x / y)"

definition f32_mul :: "f32 \<Rightarrow> f32 \<Rightarrow> f32" where
  "f32_mul x y = rnd32 (x * y)"

subsection \<open>Quantizing a vector\<close>

text \<open>
  \<^verbatim>\<open>qt_t\<close>: the quantized values (\<^verbatim>\<open>int8_t\<close>, here integers) and the scale of each group.
\<close>

record qt =
  qt_q :: "int list"
  qt_s :: "f32 list"

text \<open>
  The C library's \<^verbatim>\<open>round\<close>: to the nearest integer, halfway cases away from zero.
\<close>

definition c_round :: "real \<Rightarrow> int" where
  "c_round v = (if 0 \<le> v then \<lfloor>v + 1 / 2\<rfloor> else - \<lfloor>- v + 1 / 2\<rfloor>)"

text \<open>
  The conversion \<^verbatim>\<open>(cq_t)\<close> of the \<^verbatim>\<open>double\<close> that \<^verbatim>\<open>round\<close> returns. C defines it only
  for a value that fits \<^verbatim>\<open>int8_t\<close>. The definition follows the code that a compiler for
  x86-64 emits, a conversion to a 32-bit integer of which the low byte is stored: a value in
  the range of \<^verbatim>\<open>int\<close> is reduced modulo 256 into \<open>- 128 .. 127\<close>, and any other value gives
  the integer \<open>0x80000000\<close>, whose low byte is 0.
\<close>

definition cq_t_cast :: "int \<Rightarrow> int" where
  "cq_t_cast z = (if - (2 ^ 31) \<le> z \<and> z < 2 ^ 31 then (z + 128) mod 256 - 128 else 0)"

text \<open>
  The first inner loop of \<^verbatim>\<open>quantize\<close> over a group that starts at \<open>base\<close>: the largest
  absolute value. \<^verbatim>\<open>fabs\<close> and the comparison are exact.
\<close>

definition group_wmax :: "f32 list \<Rightarrow> nat \<Rightarrow> nat \<Rightarrow> f32" where
  "group_wmax x base G =
     fold (\<lambda>i wmax. if \<bar>x ! (base + i)\<bar> > wmax then \<bar>x ! (base + i)\<bar> else wmax) [0..<G] 0"

text \<open>
  \<^verbatim>\<open>(cq_t)round(x[..] / scale)\<close>, the division being \<open>fdiv\<close>. The source does not test
  \<^verbatim>\<open>scale\<close>: when it is zero the quotient is a NaN (for \<open>x = 0\<close>) or an infinity, and the
  conversion of either gives 0 as described above.
\<close>

definition quantize_value :: "(f32 \<Rightarrow> f32 \<Rightarrow> f32) \<Rightarrow> f32 \<Rightarrow> f32 \<Rightarrow> int" where
  "quantize_value fdiv scale v = (if scale = 0 then 0 else cq_t_cast (c_round (fdiv v scale)))"

text \<open>The second inner loop: the store of the quantized values of a group.\<close>

definition group_store ::
    "(f32 \<Rightarrow> f32 \<Rightarrow> f32) \<Rightarrow> f32 list \<Rightarrow> nat \<Rightarrow> nat \<Rightarrow> f32 \<Rightarrow> int list \<Rightarrow> int list" where
  "group_store fdiv x base G scale q =
     fold (\<lambda>i q. q[base + i := quantize_value fdiv scale (x ! (base + i))]) [0..<G] q"

text \<open>One iteration of the outer loop, with \<^verbatim>\<open>scale = wmax / qmax\<close> and \<^verbatim>\<open>qmax = 127.0f\<close>.\<close>

definition quantize_group :: "(f32 \<Rightarrow> f32 \<Rightarrow> f32) \<Rightarrow> nat \<Rightarrow> f32 list \<Rightarrow> nat \<Rightarrow> qt \<Rightarrow> qt" where
  "quantize_group fdiv G x grp qx =
     (let wmax = group_wmax x (grp * G) G;
          scale = fdiv wmax 127
      in qx\<lparr>qt_s := (qt_s qx)[grp := scale],
            qt_q := group_store fdiv x (grp * G) G scale (qt_q qx)\<rparr>)"

text \<open>
  \<^verbatim>\<open>quantize(txf, qx, x, n)\<close> with \<open>G = txf->c.group_size\<close>: the buffers of \<open>qx\<close> are
  written in place. \<^verbatim>\<open>n / group_size\<close> traps when the group size is zero.
\<close>

definition quantize :: "(f32 \<Rightarrow> f32 \<Rightarrow> f32) \<Rightarrow> nat \<Rightarrow> qt \<Rightarrow> f32 list \<Rightarrow> nat \<Rightarrow> fault + qt" where
  "quantize fdiv G qx x n =
     (if G = 0 then Inl DivisionByZero
      else
        let num_groups = n div G
        in if length x < num_groups * G \<or> length (qt_q qx) < num_groups * G
                \<or> length (qt_s qx) < num_groups
           then Inl OutOfBounds
           else Inr (fold (quantize_group fdiv G x) [0..<num_groups] qx))"

text \<open>
  \<^verbatim>\<open>dequantize(t, qx, x, n)\<close>: \<open>x[i] = (float)q[i] * s[i / G]\<close> for \<open>i < n\<close>, on weights
  that are in memory; the conversion of an \<^verbatim>\<open>int8_t\<close> to \<^verbatim>\<open>float\<close> is exact, the product is
  \<open>fmul\<close>.
\<close>

definition dequantize :: "(f32 \<Rightarrow> f32 \<Rightarrow> f32) \<Rightarrow> nat \<Rightarrow> qt \<Rightarrow> nat \<Rightarrow> fault + f32 list" where
  "dequantize fmul G qx n =
     (if G = 0 then Inl DivisionByZero
      else if length (qt_q qx) < n \<or> (0 < n \<and> length (qt_s qx) \<le> (n - 1) div G)
      then Inl OutOfBounds
      else Inr (map (\<lambda>i. fmul (of_int (qt_q qx ! i)) (qt_s qx ! (i div G))) [0..<n]))"

section \<open>The weight cache (weight_cache.c)\<close>

text \<open>
  The fields of \<^verbatim>\<open>txf_t\<close> the cache reads: the access mode, the byte budget, the base
  address \<open>data\<close> the offsets are taken from, and the checkpoint file behind \<open>fd\<close>, as its
  bytes.
\<close>

datatype clamma_model_access =
  CLAMMA_MODEL_ACCESS_MMAP | CLAMMA_MODEL_ACCESS_MALLOC_CACHE | CLAMMA_MODEL_ACCESS_ABSOLUTE_ADDRESS

record txf =
  model_access :: clamma_model_access
  cache_limit :: nat
  data :: nat
  fd_bytes :: "nat list"

text \<open>
  \<^verbatim>\<open>cwc_t\<close> with the bytes that follow its header, and \<^verbatim>\<open>cwc_state_t\<close>. The singly-linked
  list that starts at \<^verbatim>\<open>cwc_head\<close> is the list of its nodes, head first.
\<close>

record cwc =
  c_offset :: nat
  c_len :: nat
  c_count :: nat
  c_payload :: "nat list"

record cwc_state =
  cwc_head :: "cwc list"
  cwc_created :: int
  cwc_fetched :: nat
  cwc_touched :: nat
  cwc_alloced :: nat

text \<open>
  What \<^verbatim>\<open>clamma_weight_cache\<close> returns: \<^verbatim>\<open>NULL\<close>, the address it was given, or the
  payload of a cache entry.
\<close>

datatype weight_ptr = NULL | Address nat | Payload "nat list"

text \<open>Arithmetic in \<^verbatim>\<open>uint64_t\<close>.\<close>

definition u64 :: "int \<Rightarrow> nat" where
  "u64 v = nat (v mod 2 ^ 64)"

text \<open>The search loop: the first entry with this offset and length, its \<open>count\<close> bumped.\<close>

fun cwc_lookup :: "cwc list \<Rightarrow> nat \<Rightarrow> nat \<Rightarrow> (cwc list \<times> nat list) option" where
  "cwc_lookup [] ofs sz = None"
| "cwc_lookup (c # cs) ofs sz =
     (if c_offset c = ofs \<and> c_len c = sz
      then Some (c\<lparr>c_count := (c_count c + 1) mod 2 ^ 32\<rparr> # cs, c_payload c)
      else map_option (\<lambda>(cs', p). (c # cs', p)) (cwc_lookup cs ofs sz))"

text \<open>
  \<^verbatim>\<open>while (cwc.cwc_alloced > t->cache_limit)\<close>: the head entry is freed and its successor
  becomes the head. The loop reads \<^verbatim>\<open>cwc.cwc_head->next\<close> without a test for an empty list.
\<close>

fun cwc_evict :: "nat \<Rightarrow> cwc list \<Rightarrow> nat \<Rightarrow> fault + cwc list \<times> nat" where
  "cwc_evict limit [] alloced =
     (if alloced > limit then Inl NullDeref else Inr ([], alloced))"
| "cwc_evict limit (c # cs) alloced =
     (if alloced > limit then cwc_evict limit cs (u64 (int alloced - int (c_len c)))
      else Inr (c # cs, alloced))"

text \<open>
  \<^verbatim>\<open>clamma_weight_cache(t, weight, size)\<close>. \<open>malloc_ok\<close> says whether the allocation of
  the new entry succeeds. The entry is linked in before the file is read, so it stays in
  the list when the read comes back short and the call returns \<^verbatim>\<open>NULL\<close>.
\<close>

definition clamma_weight_cache ::
    "bool \<Rightarrow> txf \<Rightarrow> cwc_state \<Rightarrow> nat \<Rightarrow> nat \<Rightarrow> fault + cwc_state \<times> weight_ptr" where
  "clamma_weight_cache malloc_ok t st weight sz =
     (if model_access t \<noteq> CLAMMA_MODEL_ACCESS_MALLOC_CACHE then Inr (st, Address weight)
      else
        let ofs = u64 (int weight - int (data t)) in
        case cwc_lookup (cwc_head st) ofs sz of
          Some (cs', p) \<Rightarrow>
            Inr (st\<lparr>cwc_head := cs', cwc_touched := u64 (int (cwc_touched st) + int sz)\<rparr>, Payload p)
        | None \<Rightarrow>
            (case (if cache_limit t \<noteq> 0 then cwc_evict (cache_limit t) (cwc_head st) (cwc_alloced st)
                   else Inr (cwc_head st, cwc_alloced st)) of
               Inl e \<Rightarrow> Inl e
             | Inr (cs, alloced) \<Rightarrow>
                 let st1 = st\<lparr>cwc_head := cs, cwc_alloced := alloced\<rparr> in
                 if \<not> malloc_ok then Inr (st1, NULL)
                 else
                   let p = take sz (drop ofs (fd_bytes t));
                       c = \<lparr>c_offset = ofs, c_len = sz, c_count = 1, c_payload = p\<rparr>;
                       st2 = st1\<lparr>cwc_head := c # cs,
                                 cwc_created := cwc_created st1 + 1,
                                 cwc_alloced := u64 (int alloced + int sz),
                                 cwc_fetched := u64 (int (cwc_fetched st1) + int sz)\<rparr>
                   in if length p \<noteq> sz then Inr (st2, NULL)
                      else Inr (st2\<lparr>cwc_touched := u64 (int (cwc_touched st2) + int sz)\<rparr>,
                                Payload p)))"

section \<open>Sessions and the step driver (txf.c)\<close>

text \<open>
  Modelled from the spec: the reserved token ids \<^verbatim>\<open>TOK_BOS\<close> and \<^verbatim>\<open>TOK_EOS\<close>, which the
  sources take from the public header \<^verbatim>\<open>clamma.h\<close>. The spec gives \<open>1 = BOS\<close> and
  \<open>2 = EOS\<close>; a token id is a signed integer.
\<close>

definition TOK_BOS :: int where "TOK_BOS = 1"
definition TOK_EOS :: int where "TOK_EOS = 2"

text \<open>
  The fields of \<^verbatim>\<open>txf_session_t\<close> the step driver works on. \<open>ts_addr\<close> is the address of the
  session, which is what the list operations compare; \<open>ts_tokens\<close> is \<open>None\<close> for \<^verbatim>\<open>NULL\<close>;
  \<open>ts_issue_cb\<close> says whether the callback pointer is set.
\<close>

record txf_session =
  ts_addr :: nat
  ts_pos :: nat
  ts_limit :: nat
  ts_ct :: nat
  ts_token :: int
  ts_tnext :: int
  ts_tokens :: "int list option"
  ts_token_count :: nat
  ts_issue_cb :: bool
  ts_client_gone :: bool

text \<open>
  The registry \<^verbatim>\<open>sess_head\<close>, as the list of its nodes from the head on, and the calls
  made to issue callbacks so far: which session, which piece.
\<close>

record sessions =
  sess_head :: "txf_session list"
  issued :: "(nat \<times> string) list"

text \<open>\<^verbatim>\<open>isprint\<close> and \<^verbatim>\<open>isspace\<close> of the C locale.\<close>

definition isprint :: "char \<Rightarrow> bool" where
  "isprint c = (32 \<le> (of_char c :: nat) \<and> (of_char c :: nat) \<le> 126)"

definition isspace :: "char \<Rightarrow> bool" where
  "isspace c = ((9 \<le> (of_char c :: nat) \<and> (of_char c :: nat) \<le> 13) \<or> (of_char c :: nat) = 32)"

text \<open>
  \<^verbatim>\<open>clamma_session_issue\<close>: nothing is issued for a client that is gone; a piece of one byte
  that is neither \<^verbatim>\<open>TOK_EOS\<close>, printable nor white space is dropped.
\<close>

definition clamma_session_issue :: "txf_session \<Rightarrow> string \<Rightarrow> (nat \<times> string) list \<Rightarrow> (nat \<times> string) list" where
  "clamma_session_issue ts piece out =
     (if ts_client_gone ts then out
      else if length piece = 1 \<and> int (of_char (hd piece)) \<noteq> TOK_EOS
              \<and> \<not> (isprint (hd piece) \<or> isspace (hd piece)) then out
      else if \<not> ts_issue_cb ts then out
      else out @ [(ts_addr ts, piece)])"

text \<open>
  The list surgery of \<^verbatim>\<open>clamma_session_destroy(ts)\<close>, for \<open>ts\<close> not \<^verbatim>\<open>NULL\<close>. When \<open>ts\<close> is
  the head, the head moves on. Otherwise the loop
  \<^verbatim>\<open>while (ts1->next) { ts2 = ts1; ts1 = ts1->next; }\<close> walks \<open>ts1\<close> to the last node with
  \<open>ts2\<close> one behind, without comparing either to \<open>ts\<close>, and \<^verbatim>\<open>ts2->next = ts1->next\<close> then
  cuts the last node off; with a single node \<open>ts2\<close> stays \<^verbatim>\<open>NULL\<close> and nothing changes. On
  an empty list \<^verbatim>\<open>ts1->next\<close> dereferences \<^verbatim>\<open>NULL\<close>.
\<close>

definition clamma_session_destroy :: "nat \<Rightarrow> txf_session list \<Rightarrow> fault + txf_session list" where
  "clamma_session_destroy ts sh =
     (case sh of
        [] \<Rightarrow> Inl NullDeref
      | h # rest \<Rightarrow>
          if ts_addr h = ts then Inr rest
          else if rest = [] then Inr sh
          else Inr (butlast sh))"

text \<open>The label \<^verbatim>\<open>eol\<close> of the step driver: issue an EOS piece, destroy, report.\<close>

definition session_eol :: "sessions \<Rightarrow> txf_session \<Rightarrow> fault + sessions \<times> int" where
  "session_eol w ts =
     (let out = clamma_session_issue ts [char_of (nat TOK_EOS)] (issued w)
      in case clamma_session_destroy (ts_addr ts) (sess_head w) of
           Inl e \<Rightarrow> Inl e
         | Inr sh \<Rightarrow> Inr (w\<lparr>sess_head := sh, issued := out\<rparr>, if sh = [] then 0 else 1))"

text \<open>The rotation at the end of a step: the last node becomes the head.\<close>

definition rotate_last_to_head :: "txf_session list \<Rightarrow> txf_session list" where
  "rotate_last_to_head sh = (if sh = [] then [] else last sh # butlast sh)"

text \<open>
  \<^verbatim>\<open>clamma_sessions_step_next\<close>. The forward pass and the decoder enter as functions: the
  driver uses the token the one returns and the piece the other returns.
\<close>

definition clamma_sessions_step_next ::
    "(txf_session \<Rightarrow> bool \<Rightarrow> int \<Rightarrow> nat \<Rightarrow> int) \<Rightarrow> (int \<Rightarrow> int \<Rightarrow> string) \<Rightarrow> sessions
       \<Rightarrow> fault + sessions \<times> int" where
  "clamma_sessions_step_next clamma_session_forward clamma_vocab_decode w =
     (case sess_head w of
        [] \<Rightarrow> Inr (w, 0)
      | ts # rest \<Rightarrow>
          if ts_client_gone ts then session_eol w ts
          else if ts_pos ts < ts_limit ts then
            let is_prompt = ts_pos ts + 1 < ts_ct ts;
                ts1 = ts\<lparr>ts_tnext := clamma_session_forward ts is_prompt (ts_token ts) (ts_pos ts),
                         ts_pos := ts_pos ts + 1\<rparr>;
                w1 = w\<lparr>sess_head := ts1 # rest\<rparr>
            in if ts_pos ts1 \<ge> ts_limit ts1 then session_eol w1 ts1
               else if ts_tnext ts1 = 0 then session_eol w1 ts1
               else
                 case (if is_prompt
                       then (case ts_tokens ts1 of
                               None \<Rightarrow> Inl NullDeref
                             | Some toks \<Rightarrow>
                                 if ts_pos ts1 < length toks
                                 then Inr (ts1\<lparr>ts_tnext := toks ! ts_pos ts1\<rparr>)
                                 else Inl OutOfBounds)
                       else Inr (ts1\<lparr>ts_tokens := None\<rparr>)) of
                   Inl e \<Rightarrow> Inl e
                 | Inr ts2 \<Rightarrow>
                     if ts_tnext ts2 = TOK_BOS then session_eol (w\<lparr>sess_head := ts2 # rest\<rparr>) ts2
                     else
                       let ts3 = ts2\<lparr>ts_token_count := ts_token_count ts2 + 1\<rparr>;
                           out = (if is_prompt then issued w
                                  else clamma_session_issue ts3
                                         (clamma_vocab_decode (ts_token ts3) (ts_tnext ts3)) (issued w));
                           w3 = w\<lparr>sess_head := ts3 # rest, issued := out\<rparr>
                       in if ts_pos ts3 > 5 \<and> ts_tnext ts3 = TOK_EOS then session_eol w3 ts3
                          else
                            let ts4 = ts3\<lparr>ts_token := ts_tnext ts3\<rparr>
                            in Inr (w3\<lparr>sess_head := rotate_last_to_head (ts4 # rest)\<rparr>, 1)
          else Inr (w, 0))"

text \<open>A session as \<^verbatim>\<open>clamma_session_construct\<close> leaves it after \<^verbatim>\<open>memset\<close>, at address \<open>a\<close>.\<close>

definition session_zero :: "nat \<Rightarrow> txf_session" where
  "session_zero a = \<lparr>ts_addr = a, ts_pos = 0, ts_limit = 0, ts_ct = 0, ts_token = 0, ts_tnext = 0,
     ts_tokens = None, ts_token_count = 0, ts_issue_cb = False, ts_client_gone = False\<rparr>"

section \<open>The tokenizer's encoder (vocab.c)\<close>

text \<open>
  \<^verbatim>\<open>txf_vocab_t\<close>: the token strings, their scores, and the table of \<^verbatim>\<open>tidx_t\<close> entries
  (string and id) sorted by string.
\<close>

record txf_vocab =
  vocab :: "string list"
  scores :: "f32 list"
  sorted_vocab :: "(string \<times> int) list"
  v_size :: nat
  max_token_length :: nat

text \<open>
  \<^verbatim>\<open>str_lookup\<close>: \<^verbatim>\<open>bsearch\<close> over the first \<open>size\<close> entries of the sorted table, \<open>-1\<close> when
  the string is not there. On a sorted table \<^verbatim>\<open>bsearch\<close> finds an entry exactly when there is
  one; which of several equal entries it returns is not specified, and the model takes the
  first.
\<close>

definition str_lookup :: "string \<Rightarrow> (string \<times> int) list \<Rightarrow> nat \<Rightarrow> int" where
  "str_lookup str sv sz =
     (case find (\<lambda>e. fst e = str) (take sz sv) of Some e \<Rightarrow> snd e | None \<Rightarrow> - 1)"

text \<open>A UTF-8 continuation byte: \<^verbatim>\<open>(c & 0xC0) == 0x80\<close>.\<close>

definition is_continuation :: "char \<Rightarrow> bool" where
  "is_continuation c = ((of_char c :: nat) AND 0xC0 = 0x80)"

text \<open>
  The loop over the bytes of the text. \<open>str_buffer\<close> holds the bytes of the code point read
  so far (\<open>str_len\<close> is its length); the buffer has \<open>max_token_length * 2 + 3\<close> bytes, and the
  terminating zero is written too. The byte after the last one is the string's zero, which
  is not a continuation byte.
\<close>

fun encode_chars :: "txf_vocab \<Rightarrow> string \<Rightarrow> string \<Rightarrow> int list \<Rightarrow> fault + int list" where
  "encode_chars v [] str_buffer tokens = Inr tokens"
| "encode_chars v (c # cs) str_buffer tokens =
     (let buf = (if \<not> is_continuation c then [] else str_buffer) @ [c]
      in if max_token_length v * 2 + 3 < length buf + 1 then Inl OutOfBounds
         else if (case cs of [] \<Rightarrow> False | c' # _ \<Rightarrow> is_continuation c') \<and> length buf < 4
         then encode_chars v cs buf tokens
         else
           let id = str_lookup buf (sorted_vocab v) (v_size v)
           in encode_chars v cs []
                (tokens @ (if id \<noteq> - 1 then [id] else map (\<lambda>b. int (of_char b) + 3) buf)))"

text \<open>
  The inner loop of the merge phase over the pairs \<open>(i, i + 1)\<close>: the best pair so far is
  \<open>(best_score, best_id, best_idx)\<close>. \<^verbatim>\<open>vocab[tokens[i]]\<close> and \<^verbatim>\<open>scores[id]\<close> are reads that
  can fall outside their arrays, and \<^verbatim>\<open>sprintf\<close> can overrun \<open>str_buffer\<close>.
\<close>

fun merge_scan ::
    "txf_vocab \<Rightarrow> int list \<Rightarrow> nat list \<Rightarrow> f32 \<times> int \<times> int \<Rightarrow> fault + f32 \<times> int \<times> int" where
  "merge_scan v tokens [] best = Inr best"
| "merge_scan v tokens (i # is) (best_score, best_id, best_idx) =
     (if tokens ! i < 0 \<or> int (length (vocab v)) \<le> tokens ! i
         \<or> tokens ! (i + 1) < 0 \<or> int (length (vocab v)) \<le> tokens ! (i + 1)
      then Inl OutOfBounds
      else
        let str_buffer = vocab v ! nat (tokens ! i) @ vocab v ! nat (tokens ! (i + 1))
        in if max_token_length v * 2 + 3 < length str_buffer + 1 then Inl OutOfBounds
           else
             let id = str_lookup str_buffer (sorted_vocab v) (v_size v)
             in if id \<noteq> - 1 \<and> (id < 0 \<or> int (length (scores v)) \<le> id) then Inl OutOfBounds
                else if id \<noteq> - 1 \<and> scores v ! nat id > best_score
                then merge_scan v tokens is (scores v ! nat id, id, int i)
                else merge_scan v tokens is (best_score, best_id, best_idx))"

lemma merge_scan_idx:
  "merge_scan v tokens is best = Inr (s, bid, bidx) \<Longrightarrow>
     bidx = snd (snd best) \<or> bidx \<in> int ` set is"
proof (induction "is" arbitrary: best)
  case Nil
  then show ?case by auto
next
  case (Cons i "is")
  obtain bs b bi where best: "best = (bs, b, bi)" by (cases best)
  from Cons.prems show ?case
    unfolding best
    by (auto simp: Let_def split: if_splits dest!: Cons.IH)
qed

text \<open>
  \<^verbatim>\<open>while (1)\<close>: merge the best pair until no pair merges. Every round removes a token, so
  the loop ends.
\<close>

function merge_loop :: "txf_vocab \<Rightarrow> int list \<Rightarrow> fault + int list" where
  "merge_loop v tokens =
     (case merge_scan v tokens (if 2 < length tokens then [0..<length tokens - 1] else [])
             (- 10000000000, - 1, - 1) of
        Inl e \<Rightarrow> Inl e
      | Inr (best_score, best_id, best_idx) \<Rightarrow>
          if best_idx = - 1 then Inr tokens
          else merge_loop v (take (nat best_idx) tokens @ [best_id]
                               @ drop (nat best_idx + 2) tokens))"
  by pat_completeness auto
termination
proof (relation "measure (\<lambda>(v, tokens). length tokens)")
  show "wf (measure (\<lambda>(v, tokens). length tokens))" by simp
next
  fix v :: txf_vocab and tokens :: "int list" and x2 x y xa ya
  assume scan: "merge_scan v tokens (if 2 < length tokens then [0..<length tokens - 1] else [])
           (- 10000000000, - 1, - 1) = Inr x2"
    and x2: "(x, y) = x2" "(xa, ya) = y" and ne: "ya \<noteq> - 1"
  have "merge_scan v tokens (if 2 < length tokens then [0..<length tokens - 1] else [])
           (- 10000000000, - 1, - 1) = Inr (x, xa, ya)"
    using scan x2 by simp
  from merge_scan_idx [OF this] ne
  have "ya \<in> int ` set (if 2 < length tokens then [0..<length tokens - 1] else [])"
    by simp
  then have "0 \<le> ya" "nat ya + 2 \<le> length tokens"
    by (auto split: if_splits)
  then show "((v, take (nat ya) tokens @ [xa] @ drop (nat ya + 2) tokens), (v, tokens))
        \<in> measure (\<lambda>(v, tokens). length tokens)"
    by simp
qed

declare merge_loop.simps [simp del]

text \<open>
  \<^verbatim>\<open>clamma_vocab_encode(t, text, bos, eos, n_tokens)\<close>: \<open>None\<close> is the \<^verbatim>\<open>NULL\<close> result, \<open>Some\<close>
  the tokens written (\<open>*n_tokens\<close> is their number). The two flags say whether the two
  allocations succeed.
\<close>

definition clamma_vocab_encode ::
    "bool \<Rightarrow> bool \<Rightarrow> txf_vocab \<Rightarrow> string option \<Rightarrow> bool \<Rightarrow> bool \<Rightarrow> fault + int list option" where
  "clamma_vocab_encode malloc_tokens_ok malloc_buffer_ok v text bos eos =
     (case text of
        None \<Rightarrow> Inr None
      | Some txt \<Rightarrow>
          if \<not> malloc_tokens_ok then Inr None
          else if \<not> malloc_buffer_ok then Inr None
          else
            let tokens0 = (if bos then [TOK_BOS] else []);
                tokens1 = tokens0 @ (if txt \<noteq> []
                                     then [str_lookup '' '' (sorted_vocab v) (v_size v)] else [])
            in case encode_chars v txt [] tokens1 of
                 Inl e \<Rightarrow> Inl e
               | Inr tokens2 \<Rightarrow>
                   (case merge_loop v tokens2 of
                      Inl e \<Rightarrow> Inl e
                    | Inr tokens3 \<Rightarrow> Inr (Some (tokens3 @ (if eos then [TOK_EOS] else [])))))"

section \<open>The forward pass (session.c)\<close>

text \<open>
  The two model file versions of \<^verbatim>\<open>private.h\<close>, the value of \<^verbatim>\<open>txf_config_t.version\<close>.
\<close>

datatype clamma_version = CLAMMA_MODEL_VERSION1_FLOAT | CLAMMA_MODEL_VERSION2_INT8_80

text \<open>
  \<^verbatim>\<open>txf_config_t\<close>: the fields the forward pass reads, prefixed by \<open>cfg_\<close>.
\<close>

record txf_config =
  cfg_dim :: nat
  cfg_hidden_dim :: nat
  cfg_n_layers :: nat
  cfg_n_heads :: nat
  cfg_n_kv_heads :: nat
  cfg_vocab_size :: nat
  cfg_seq_len :: nat
  cfg_group_size :: nat
  cfg_version :: clamma_version

text \<open>
  A weight tensor of \<^verbatim>\<open>txf_weights_t\<close>. The struct declares them \<^verbatim>\<open>qt_t *\<close>; the float
  build of the forward pass casts the pointer to \<^verbatim>\<open>float *\<close> and offsets it by elements, the int8
  build indexes it by layer (\<^verbatim>\<open>t->w.wq + l\<close>).
\<close>

datatype wt = WFloat "f32 list" | WInt8 "qt list"

text \<open>
  \<^verbatim>\<open>txf_weights_t\<close>. The fields \<open>w1\<close>, \<open>w2\<close>, \<open>w3\<close> are written \<open>w_w1\<close>, \<open>w_w2\<close>,
  \<open>w_w3\<close>.
\<close>

record txf_weights =
  token_embedding_table :: "f32 list"
  rms_att_weight :: "f32 list"
  rms_ffn_weight :: "f32 list"
  wq :: wt
  wk :: wt
  wv :: wt
  wo :: wt
  w_w1 :: wt
  w_w2 :: wt
  w_w3 :: wt
  wcls :: wt
  rms_final_weight :: "f32 list"

text \<open>
  The float buffers of a session. \<^verbatim>\<open>clamma_session_construct\<close> (txf.c) carves them out of
  one allocation: \<open>x\<close>, then the key cache and the value cache, each of
  \<open>n_layers * seq_len * kv_dim\<close> floats, then the scratch buffers. A pointer into a buffer is
  a pair of a region and an offset, so \<^verbatim>\<open>tss->k\<close> and \<^verbatim>\<open>tss->v\<close>, which the forward pass
  points into the caches, alias the cache rows exactly as in the source. In the source
  \<open>logits\<close> starts at the same address as \<open>xb\<close>; here they are separate regions. Both lie
  behind the two caches, so no write to them reaches a cache.
\<close>

datatype region =
  R_x | R_key_cache | R_value_cache | R_logits | R_xb | R_xb2 | R_hb | R_hb2 | R_q | R_att

text \<open>
  \<^verbatim>\<open>txf_state_t\<close> with its \<^verbatim>\<open>txf_session_state_t\<close>: the contents of each region, the two
  quantized scratch vectors, and \<open>n_fetches\<close>, the number of calls of
  \<^verbatim>\<open>clamma_weight_cache\<close> made so far. The scratch fields carry the prefix \<open>s_\<close>.
\<close>

record txf_state =
  s_x :: "f32 list"
  key_cache :: "f32 list"
  value_cache :: "f32 list"
  s_logits :: "f32 list"
  s_xb :: "f32 list"
  s_xb2 :: "f32 list"
  s_hb :: "f32 list"
  s_hb2 :: "f32 list"
  s_q :: "f32 list"
  s_att :: "f32 list"
  s_xq :: qt
  s_hq :: qt
  n_fetches :: nat

text \<open>The contents of a region, and the state with a region replaced.\<close>

fun region_of :: "region \<Rightarrow> txf_state \<Rightarrow> f32 list" where
  "region_of R_x s = s_x s"
| "region_of R_key_cache s = key_cache s"
| "region_of R_value_cache s = value_cache s"
| "region_of R_logits s = s_logits s"
| "region_of R_xb s = s_xb s"
| "region_of R_xb2 s = s_xb2 s"
| "region_of R_hb s = s_hb s"
| "region_of R_hb2 s = s_hb2 s"
| "region_of R_q s = s_q s"
| "region_of R_att s = s_att s"

fun region_upd :: "region \<Rightarrow> f32 list \<Rightarrow> txf_state \<Rightarrow> txf_state" where
  "region_upd R_x v s = s\<lparr>s_x := v\<rparr>"
| "region_upd R_key_cache v s = s\<lparr>key_cache := v\<rparr>"
| "region_upd R_value_cache v s = s\<lparr>value_cache := v\<rparr>"
| "region_upd R_logits v s = s\<lparr>s_logits := v\<rparr>"
| "region_upd R_xb v s = s\<lparr>s_xb := v\<rparr>"
| "region_upd R_xb2 v s = s\<lparr>s_xb2 := v\<rparr>"
| "region_upd R_hb v s = s\<lparr>s_hb := v\<rparr>"
| "region_upd R_hb2 v s = s\<lparr>s_hb2 := v\<rparr>"
| "region_upd R_q v s = s\<lparr>s_q := v\<rparr>"
| "region_upd R_att v s = s\<lparr>s_att := v\<rparr>"

text \<open>
  Writing \<open>vals\<close> to \<open>buf[off ..]\<close> one element after the other, and the same on a
  pointer; reading \<open>n\<close> floats from a pointer. The guard of \<^verbatim>\<open>clamma_session_forward\<close>
  below keeps every index in range.
\<close>

definition write_at :: "'a list \<Rightarrow> nat \<Rightarrow> 'a list \<Rightarrow> 'a list" where
  "write_at buf off vals = fold (\<lambda>i b. b[off + i := vals ! i]) [0..<length vals] buf"

definition store :: "region \<times> nat \<Rightarrow> f32 list \<Rightarrow> txf_state \<Rightarrow> txf_state" where
  "store p vals s = region_upd (fst p) (write_at (region_of (fst p) s) (snd p) vals) s"

definition load :: "region \<times> nat \<Rightarrow> nat \<Rightarrow> txf_state \<Rightarrow> f32 list" where
  "load p n s = map (\<lambda>i. region_of (fst p) s ! (snd p + i)) [0..<n]"

text \<open>
  The locals \<^verbatim>\<open>kv_dim\<close>, \<^verbatim>\<open>kv_mul\<close>, \<^verbatim>\<open>head_size\<close> and \<^verbatim>\<open>loff\<close> of \<^verbatim>\<open>clamma_session_forward\<close>.
\<close>

definition kv_dim :: "txf_config \<Rightarrow> nat" where
  "kv_dim c = (cfg_dim c * cfg_n_kv_heads c) div cfg_n_heads c"

definition kv_mul :: "txf_config \<Rightarrow> nat" where
  "kv_mul c = cfg_n_heads c div cfg_n_kv_heads c"

definition head_size :: "txf_config \<Rightarrow> nat" where
  "head_size c = cfg_dim c div cfg_n_heads c"

definition loff :: "txf_config \<Rightarrow> nat \<Rightarrow> nat" where
  "loff c l = l * cfg_seq_len c * kv_dim c"

text \<open>
  One stage of the forward pass: it faults, or gives the new state and whether to go on;
  \<open>False\<close> is the \<^verbatim>\<open>goto bail\<close> of the source, taken when a helper returns nonzero.
  \<open>run_steps\<close> runs stages in order up to the first that bails.
\<close>

type_synonym step = "txf_state \<Rightarrow> fault + txf_state \<times> bool"

fun run_steps :: "step list \<Rightarrow> step" where
  "run_steps [] s = Inr (s, True)"
| "run_steps (f # fs) s =
     (case f s of
        Inl e \<Rightarrow> Inl e
      | Inr (s', ok) \<Rightarrow> if ok then run_steps fs s' else Inr (s', False))"

text \<open>
  A call of \<^verbatim>\<open>clamma_weight_cache\<close>. The forward pass only tests the result against NULL
  and reads the weights through it, and the cache returns a copy of the weights of the model,
  so a call is modelled by its number and \<open>fetch_ok\<close>, which says whether the call with
  that number returns a pointer.
\<close>

definition weight_fetch :: "(nat \<Rightarrow> bool) \<Rightarrow> txf_state \<Rightarrow> txf_state \<times> bool" where
  "weight_fetch fetch_ok s = (s\<lparr>n_fetches := n_fetches s + 1\<rparr>, fetch_ok (n_fetches s))"

text \<open>
  \<^verbatim>\<open>session_rmsnorm\<close>: the sum of squares is taken first, then the weights are fetched;
  \<open>1e-5f\<close> is \<open>1 / 100000\<close>.
\<close>

definition session_rmsnorm ::
    "(nat \<Rightarrow> bool) \<Rightarrow> region \<times> nat \<Rightarrow> region \<times> nat \<Rightarrow> f32 list \<Rightarrow> nat \<Rightarrow> step" where
  "session_rmsnorm fetch_ok out x weight sz s =
     (let xv = load x sz s;
          ss = 1 / sqrt (sum_list (map (\<lambda>v. v * v) xv) / real sz + 1 / 100000);
          (s1, ok) = weight_fetch fetch_ok s
      in if \<not> ok then Inr (s1, False)
         else Inr (store out (map (\<lambda>j. weight ! j * (ss * xv ! j)) [0..<sz]) s1, True))"

text \<open>
  \<^verbatim>\<open>_session_matmul\<close>: rows \<open>i\<close> to \<open>dlim\<close> of \<open>w\<close> times \<open>x\<close>, written to
  \<open>xout[i ..]\<close>.
\<close>

definition session_matmul_kernel ::
    "(nat \<Rightarrow> bool) \<Rightarrow> region \<times> nat \<Rightarrow> region \<times> nat \<Rightarrow> f32 list \<Rightarrow> nat \<Rightarrow> nat \<Rightarrow> nat \<Rightarrow> nat
       \<Rightarrow> step" where
  "session_matmul_kernel fetch_ok xout x w i dlim n d s =
     (let (s1, ok) = weight_fetch fetch_ok s
      in if \<not> ok then Inr (s1, False)
         else
           let xv = load x n s1
           in Inr (store (fst xout, snd xout + i)
                     (map (\<lambda>r. sum_list (map (\<lambda>j. w ! (r * n + j) * xv ! j) [0..<n])) [i..<dlim])
                     s1, True))"

text \<open>
  \<^verbatim>\<open>_session_matmul_qt\<close> with group size \<open>G\<close>: the second fetch divides by the group
  size in its length argument; both fetches are made before either result is tested.
\<close>

definition session_matmul_qt_kernel ::
    "(nat \<Rightarrow> bool) \<Rightarrow> nat \<Rightarrow> region \<times> nat \<Rightarrow> qt \<Rightarrow> qt \<Rightarrow> nat \<Rightarrow> nat \<Rightarrow> nat \<Rightarrow> nat \<Rightarrow> step" where
  "session_matmul_qt_kernel fetch_ok G xout x w i dlim n d s =
     (if G = 0 then Inl DivisionByZero
      else
        let (s1, ok1) = weight_fetch fetch_ok s;
            (s2, ok2) = weight_fetch fetch_ok s1
        in if \<not> ok1 \<or> \<not> ok2 then Inr (s2, False)
           else Inr (store (fst xout, snd xout + i)
                     (map (\<lambda>r. sum_list (map (\<lambda>g.
                              real_of_int (sum_list (map (\<lambda>k. qt_q x ! (g * G + k)
                                                          * qt_q w ! (r * n + g * G + k)) [0..<G]))
                                * qt_s w ! ((r * n + g * G) div G) * qt_s x ! g)
                            [0..<n div G])) [i..<dlim])
                     s2, True))"

text \<open>
  \<^verbatim>\<open>quantize\<close> of \<open>n\<close> floats at \<open>x\<close> into \<^verbatim>\<open>tss->xq\<close> or \<^verbatim>\<open>tss->hq\<close>.
\<close>

definition quantize_step :: "nat \<Rightarrow> bool \<Rightarrow> region \<times> nat \<Rightarrow> nat \<Rightarrow> step" where
  "quantize_step G to_hq x n s =
     (case quantize (/) G (if to_hq then s_hq s else s_xq s) (load x n s) n of
        Inl e \<Rightarrow> Inl e
      | Inr qx \<Rightarrow> Inr (if to_hq then s\<lparr>s_hq := qx\<rparr> else s\<lparr>s_xq := qx\<rparr>, True))"

text \<open>
  The float view of a tensor at an element offset, and the \<^verbatim>\<open>qt_t\<close> of a layer.
\<close>

definition wfloat :: "wt \<Rightarrow> nat \<Rightarrow> f32 list" where
  "wfloat w off = (case w of WFloat a \<Rightarrow> drop off a | WInt8 _ \<Rightarrow> [])"

definition wint8 :: "wt \<Rightarrow> nat \<Rightarrow> qt" where
  "wint8 w l = (case w of WInt8 a \<Rightarrow> a ! l | WFloat _ \<Rightarrow> \<lparr>qt_q = [], qt_s = []\<rparr>)"

text \<open>
  The \<^verbatim>\<open>switch (t->c.version)\<close> around each matrix product. Without
  \<^verbatim>\<open>LIBCLAMMA_SMP\<close>, \<^verbatim>\<open>session_matmul\<close> is the inline function of \<^verbatim>\<open>private.h\<close> that
  runs the kernel over all rows, \<open>_session_matmul(tss, xout, x, w1, 0, d, n, d)\<close>; this is
  the build modelled here. (With it, the rows are handed to worker threads and joined at
  \<^verbatim>\<open>clamma_smp_sync_point\<close>; the work distributor above models the hand-over.)
\<close>

definition matmul_step ::
    "(nat \<Rightarrow> bool) \<Rightarrow> txf_config \<Rightarrow> region \<times> nat \<Rightarrow> region \<times> nat \<Rightarrow> bool \<Rightarrow> wt \<Rightarrow> nat \<Rightarrow> nat
       \<Rightarrow> nat \<Rightarrow> nat \<Rightarrow> step" where
  "matmul_step fetch_ok c xout x from_hq w l stride n d s =
     (case cfg_version c of
        CLAMMA_MODEL_VERSION1_FLOAT \<Rightarrow>
          session_matmul_kernel fetch_ok xout x (wfloat w (l * stride)) 0 d n d s
      | CLAMMA_MODEL_VERSION2_INT8_80 \<Rightarrow>
          session_matmul_qt_kernel fetch_ok (cfg_group_size c) xout
            (if from_hq then s_hq s else s_xq s) (wint8 w l) 0 d n d s)"

text \<open>
  The body of the RoPE loop for one vector: \<open>vec[i]\<close> and \<open>vec[i + 1]\<close> rotated.
\<close>

definition rope_pair :: "region \<times> nat \<Rightarrow> nat \<Rightarrow> f32 \<Rightarrow> f32 \<Rightarrow> txf_state \<Rightarrow> txf_state" where
  "rope_pair vec i fcr fci s =
     (let v0 = region_of (fst vec) s ! (snd vec + i);
          v1 = region_of (fst vec) s ! (snd vec + i + 1)
      in store (fst vec, snd vec + i) [v0 * fcr - v1 * fci, v0 * fci + v1 * fcr] s)"

text \<open>
  One iteration of the RoPE loop at even \<open>i\<close>: the query always, the key \<open>k\<close> (which
  points at the cache row) when \<open>i < kv_dim\<close>.
\<close>

definition rope_at :: "txf_config \<Rightarrow> nat \<Rightarrow> region \<times> nat \<Rightarrow> nat \<Rightarrow> txf_state \<Rightarrow> txf_state" where
  "rope_at c pos k i s =
     (let head_dim = i mod head_size c;
          freq = 1 / (10000 powr (real head_dim / real (head_size c)));
          val = real pos * freq;
          fcr = cos val;
          fci = sin val;
          s1 = rope_pair (R_q, 0) i fcr fci s
      in if i < kv_dim c then rope_pair k i fcr fci s1 else s1)"

text \<open>The RoPE loop, \<open>for (i = 0; i < dim; i += 2)\<close>.\<close>

definition rope_step :: "txf_config \<Rightarrow> nat \<Rightarrow> region \<times> nat \<Rightarrow> step" where
  "rope_step c pos k s =
     Inr (fold (rope_at c pos k) (map (\<lambda>j. 2 * j) [0..<(cfg_dim c + 1) div 2]) s, True)"

text \<open>
  The two \<^verbatim>\<open>memcpy\<close> calls after RoPE. Source and destination are the same cache row,
  since \<^verbatim>\<open>tss->k\<close> and \<^verbatim>\<open>tss->v\<close> were set to these rows at the top of the layer.
\<close>

definition kv_copy_step :: "txf_config \<Rightarrow> nat \<Rightarrow> nat \<Rightarrow> step" where
  "kv_copy_step c pos l s =
     (let row = loff c l + pos * kv_dim c;
          s1 = store (R_key_cache, row) (load (R_key_cache, row) (kv_dim c) s) s
      in Inr (store (R_value_cache, row) (load (R_value_cache, row) (kv_dim c) s1) s1, True))"

text \<open>
  Attention for head \<open>h\<close>: the scores against the keys of positions \<open>0 .. pos\<close>,
  \<^verbatim>\<open>session_softmax\<close> over them, and the weighted sum of the values into \<open>xb\<close>.
\<close>

definition attention_head :: "txf_config \<Rightarrow> nat \<Rightarrow> nat \<Rightarrow> nat \<Rightarrow> txf_state \<Rightarrow> txf_state" where
  "attention_head c pos l h s =
     (let hs = head_size c;
          kvh = loff c l + (h div kv_mul c) * hs;
          scores = map (\<lambda>n. sum_list (map (\<lambda>i. s_q s ! (h * hs + i)
                                              * key_cache s ! (kvh + n * kv_dim c + i)) [0..<hs])
                              / sqrt (real hs)) [0..<pos + 1];
          s1 = store (R_att, h * cfg_seq_len c) scores s;
          s2 = store (R_att, h * cfg_seq_len c)
                 (session_softmax (load (R_att, h * cfg_seq_len c) (pos + 1) s1) (pos + 1)) s1;
          a = load (R_att, h * cfg_seq_len c) (pos + 1) s2
      in store (R_xb, h * hs)
           (map (\<lambda>i. sum_list (map (\<lambda>n. a ! n * value_cache s2 ! (kvh + n * kv_dim c + i))
                                 [0..<pos + 1])) [0..<hs]) s2)"

text \<open>The loop over the heads.\<close>

definition attention_step :: "txf_config \<Rightarrow> nat \<Rightarrow> nat \<Rightarrow> step" where
  "attention_step c pos l s = Inr (fold (attention_head c pos l) [0..<cfg_n_heads c] s, True)"

text \<open>
  The residual connections \<open>x[i] += xb2[i]\<close> and \<open>x[i] += xb[i]\<close>.
\<close>

definition residual_step :: "txf_config \<Rightarrow> region \<Rightarrow> step" where
  "residual_step c r s =
     Inr (store (R_x, 0) (map (\<lambda>i. s_x s ! i + region_of r s ! i) [0..<cfg_dim c]) s, True)"

text \<open>The SwiGLU loop over \<open>hb\<close>.\<close>

definition swiglu_step :: "txf_config \<Rightarrow> step" where
  "swiglu_step c s =
     Inr (store (R_hb, 0)
            (map (\<lambda>i. (s_hb s ! i * (1 / (1 + exp (- s_hb s ! i)))) * s_hb2 s ! i)
               [0..<cfg_hidden_dim c]) s, True)"

text \<open>
  Stages that only the case \<^verbatim>\<open>CLAMMA_MODEL_VERSION2_INT8_80\<close> has.
\<close>

definition int8 :: "txf_config \<Rightarrow> step list \<Rightarrow> step list" where
  "int8 c steps = (if cfg_version c = CLAMMA_MODEL_VERSION2_INT8_80 then steps else [])"

text \<open>
  The body of the layer loop up to and including the two \<^verbatim>\<open>memcpy\<close> calls: what
  produces the keys and values of position \<open>pos\<close>.
\<close>

definition layer_kv_steps ::
    "(nat \<Rightarrow> bool) \<Rightarrow> txf_config \<Rightarrow> txf_weights \<Rightarrow> nat \<Rightarrow> nat \<Rightarrow> step list" where
  "layer_kv_steps fetch_ok c w pos l =
     (let d = cfg_dim c; kvd = kv_dim c; G = cfg_group_size c;
          k = (R_key_cache, loff c l + pos * kvd);
          v = (R_value_cache, loff c l + pos * kvd)
      in [session_rmsnorm fetch_ok (R_xb, 0) (R_x, 0) (drop (l * d) (rms_att_weight w)) d]
         @ int8 c [quantize_step G False (R_xb, 0) d]
         @ [matmul_step fetch_ok c (R_q, 0) (R_xb, 0) False (wq w) l (d * d) d d,
            matmul_step fetch_ok c k (R_xb, 0) False (wk w) l (d * kvd) d kvd,
            matmul_step fetch_ok c v (R_xb, 0) False (wv w) l (d * kvd) d kvd,
            rope_step c pos k,
            kv_copy_step c pos l])"

text \<open>The rest of the body of the layer loop, from attention on.\<close>

definition layer_rest_steps ::
    "(nat \<Rightarrow> bool) \<Rightarrow> txf_config \<Rightarrow> txf_weights \<Rightarrow> nat \<Rightarrow> nat \<Rightarrow> step list" where
  "layer_rest_steps fetch_ok c w pos l =
     (let d = cfg_dim c; hd = cfg_hidden_dim c; G = cfg_group_size c
      in [attention_step c pos l]
         @ int8 c [quantize_step G False (R_xb, 0) d]
         @ [matmul_step fetch_ok c (R_xb2, 0) (R_xb, 0) False (wo w) l (d * d) d d,
            residual_step c R_xb2,
            session_rmsnorm fetch_ok (R_xb, 0) (R_x, 0) (drop (l * d) (rms_ffn_weight w)) d]
         @ int8 c [quantize_step G False (R_xb, 0) d]
         @ [matmul_step fetch_ok c (R_hb, 0) (R_xb, 0) False (w_w1 w) l (d * hd) d hd,
            matmul_step fetch_ok c (R_hb2, 0) (R_xb, 0) False (w_w3 w) l (d * hd) d hd,
            swiglu_step c]
         @ int8 c [quantize_step G True (R_hb, 0) hd]
         @ [matmul_step fetch_ok c (R_xb, 0) (R_hb, 0) True (w_w2 w) l (d * hd) hd d,
            residual_step c R_xb])"

text \<open>The body of the layer loop.\<close>

definition layer_steps ::
    "(nat \<Rightarrow> bool) \<Rightarrow> txf_config \<Rightarrow> txf_weights \<Rightarrow> nat \<Rightarrow> nat \<Rightarrow> step list" where
  "layer_steps fetch_ok c w pos l =
     layer_kv_steps fetch_ok c w pos l @ layer_rest_steps fetch_ok c w pos l"

text \<open>
  The head of \<^verbatim>\<open>clamma_session_forward\<close>: the float model fetches the embedding row
  through the weight cache, the int8 model reads it in place; then the \<^verbatim>\<open>memcpy\<close> into
  \<open>x\<close>.
\<close>

definition embed_step :: "(nat \<Rightarrow> bool) \<Rightarrow> txf_config \<Rightarrow> txf_weights \<Rightarrow> nat \<Rightarrow> step" where
  "embed_step fetch_ok c w token s =
     (let (s1, ok) = (case cfg_version c of
                        CLAMMA_MODEL_VERSION1_FLOAT \<Rightarrow> weight_fetch fetch_ok s
                      | CLAMMA_MODEL_VERSION2_INT8_80 \<Rightarrow> (s, True))
      in if \<not> ok then Inr (s1, False)
         else Inr (store (R_x, 0)
                     (map (\<lambda>i. token_embedding_table w ! (token * cfg_dim c + i)) [0..<cfg_dim c])
                     s1, True))"

text \<open>The final rmsnorm and the classifier.\<close>

definition final_steps :: "(nat \<Rightarrow> bool) \<Rightarrow> txf_config \<Rightarrow> txf_weights \<Rightarrow> step list" where
  "final_steps fetch_ok c w =
     [session_rmsnorm fetch_ok (R_x, 0) (R_x, 0) (rms_final_weight w) (cfg_dim c)]
     @ int8 c [quantize_step (cfg_group_size c) False (R_x, 0) (cfg_dim c)]
     @ [matmul_step fetch_ok c (R_logits, 0) (R_x, 0) False (wcls w) 0 0 (cfg_dim c)
          (cfg_vocab_size c)]"

text \<open>All stages of \<^verbatim>\<open>clamma_session_forward\<close> in order.\<close>

definition forward_steps ::
    "(nat \<Rightarrow> bool) \<Rightarrow> txf_config \<Rightarrow> txf_weights \<Rightarrow> nat \<Rightarrow> nat \<Rightarrow> step list" where
  "forward_steps fetch_ok c w token pos =
     embed_step fetch_ok c w token
     # concat (map (layer_steps fetch_ok c w pos) [0..<cfg_n_layers c])
     @ final_steps fetch_ok c w"

text \<open>
  The layout the forward pass relies on without checking: the divisibility of the
  dimensions, \<open>token\<close> and \<open>pos\<close> within the model, and every buffer and tensor as large
  as the loops index it. \<open>head_size\<close> is even, so that the RoPE loop stays inside a row.
\<close>

definition wt_in_bounds :: "txf_config \<Rightarrow> wt \<Rightarrow> nat \<Rightarrow> nat \<Rightarrow> bool" where
  "wt_in_bounds c w layers sz =
     (case cfg_version c of
        CLAMMA_MODEL_VERSION1_FLOAT \<Rightarrow>
          (case w of WFloat a \<Rightarrow> layers * sz \<le> length a | WInt8 _ \<Rightarrow> False)
      | CLAMMA_MODEL_VERSION2_INT8_80 \<Rightarrow>
          (case w of
             WFloat _ \<Rightarrow> False
           | WInt8 a \<Rightarrow> layers \<le> length a
               \<and> (\<forall>t \<in> set (take layers a).
                     sz \<le> length (qt_q t) \<and> sz \<le> length (qt_s t) * cfg_group_size c)))"

definition forward_in_bounds ::
    "txf_config \<Rightarrow> txf_weights \<Rightarrow> txf_state \<Rightarrow> nat \<Rightarrow> nat \<Rightarrow> bool" where
  "forward_in_bounds c w s token pos =
     (let d = cfg_dim c; hd = cfg_hidden_dim c; L = cfg_n_layers c; kvd = kv_dim c
      in 0 < cfg_n_kv_heads c \<and> 0 < head_size c
         \<and> cfg_dim c mod cfg_n_heads c = 0 \<and> cfg_n_heads c mod cfg_n_kv_heads c = 0
         \<and> even (head_size c)
         \<and> token < cfg_vocab_size c \<and> pos < cfg_seq_len c
         \<and> d \<le> length (s_x s) \<and> d \<le> length (s_xb s) \<and> d \<le> length (s_xb2 s)
         \<and> d \<le> length (s_q s) \<and> hd \<le> length (s_hb s) \<and> hd \<le> length (s_hb2 s)
         \<and> cfg_n_heads c * cfg_seq_len c \<le> length (s_att s)
         \<and> cfg_vocab_size c \<le> length (s_logits s)
         \<and> L * cfg_seq_len c * kvd \<le> length (key_cache s)
         \<and> L * cfg_seq_len c * kvd \<le> length (value_cache s)
         \<and> cfg_vocab_size c * d \<le> length (token_embedding_table w)
         \<and> L * d \<le> length (rms_att_weight w) \<and> L * d \<le> length (rms_ffn_weight w)
         \<and> d \<le> length (rms_final_weight w)
         \<and> wt_in_bounds c (wq w) L (d * d) \<and> wt_in_bounds c (wk w) L (d * kvd)
         \<and> wt_in_bounds c (wv w) L (d * kvd) \<and> wt_in_bounds c (wo w) L (d * d)
         \<and> wt_in_bounds c (w_w1 w) L (d * hd) \<and> wt_in_bounds c (w_w2 w) L (d * hd)
         \<and> wt_in_bounds c (w_w3 w) L (d * hd) \<and> wt_in_bounds c (wcls w) 1 (d * cfg_vocab_size c))"

text \<open>
  \<^verbatim>\<open>clamma_session_forward\<close> on the sampler and the state of a session. The divisions by
  \<open>n_heads\<close> come first; an access outside the layout is \<open>OutOfBounds\<close>; a stage that
  bails makes the call return 0; otherwise the result is \<open>token\<close> for a prompt position and
  the sampled token else.
\<close>

definition clamma_session_forward ::
    "(nat \<Rightarrow> bool) \<Rightarrow> txf_config \<Rightarrow> txf_weights \<Rightarrow> txf_sampler \<times> txf_state \<Rightarrow> bool \<Rightarrow> nat \<Rightarrow> nat
       \<Rightarrow> fault + (txf_sampler \<times> txf_state) \<times> int" where
  "clamma_session_forward fetch_ok c w ts is_prompt token pos =
     (if cfg_n_heads c = 0 then Inl DivisionByZero
      else if \<not> forward_in_bounds c w (snd ts) token pos then Inl OutOfBounds
      else
        case run_steps (forward_steps fetch_ok c w token pos) (snd ts) of
          Inl e \<Rightarrow> Inl e
        | Inr (s', ok) \<Rightarrow>
            if \<not> ok then Inr ((fst ts, s'), 0)
            else if is_prompt then Inr ((fst ts, s'), int token)
            else
              case clamma_sampler_sample (fst ts) (s_logits s') of
                (sampler', lg, r) \<Rightarrow>
                  (case r of
                     Inl e \<Rightarrow> Inl e
                   | Inr tok \<Rightarrow> Inr ((sampler', s'\<lparr>s_logits := lg\<rparr>), tok)))"

section \<open>Predicates on the stages of the forward pass\<close>

text \<open>
  \<open>cache_within A s s'\<close>: from \<open>s\<close> to \<open>s'\<close> both caches keep their length and every
  element whose index is outside \<open>A\<close>. A stage is within \<open>A\<close> when every run of it is.
\<close>

definition cache_within :: "nat set \<Rightarrow> txf_state \<Rightarrow> txf_state \<Rightarrow> bool" where
  "cache_within A s s' =
     (length (key_cache s') = length (key_cache s)
      \<and> length (value_cache s') = length (value_cache s)
      \<and> (\<forall>j. j \<notin> A \<longrightarrow>
             key_cache s' ! j = key_cache s ! j \<and> value_cache s' ! j = value_cache s ! j))"

definition step_within :: "nat set \<Rightarrow> step \<Rightarrow> bool" where
  "step_within A f = (\<forall>s s' b. f s = Inr (s', b) \<longrightarrow> cache_within A s s')"

text \<open>The indices of the cache row of position \<open>pos\<close> in layer \<open>l\<close>.\<close>

definition slot :: "txf_config \<Rightarrow> nat \<Rightarrow> nat \<Rightarrow> nat set" where
  "slot c pos l = {loff c l + pos * kv_dim c..<loff c l + pos * kv_dim c + kv_dim c}"



section \<open>Greedy sampling\<close>

lemma argmax_fold:
  assumes "1 \<le> b" "b \<le> length p"
  shows "snd (fold (argmax_step p) [1..<b] (0, p ! 0))
           = p ! fst (fold (argmax_step p) [1..<b] (0, p ! 0))
         \<and> fst (fold (argmax_step p) [1..<b] (0, p ! 0)) < b
         \<and> (\<forall>j<b. p ! j \<le> p ! fst (fold (argmax_step p) [1..<b] (0, p ! 0)))
         \<and> (\<forall>j<fst (fold (argmax_step p) [1..<b] (0, p ! 0)).
               p ! j < p ! fst (fold (argmax_step p) [1..<b] (0, p ! 0)))"
  using assms
proof (induction b)
  case 0
  then show ?case by simp
next
  case (Suc b)
  show ?case
  proof (cases "b = 0")
    case True
    then show ?thesis by simp
  next
    case False
    define acc where "acc = fold (argmax_step p) [1..<b] (0, p ! 0)"
    have ih: "snd acc = p ! fst acc" "fst acc < b" "\<forall>j<b. p ! j \<le> p ! fst acc"
      "\<forall>j<fst acc. p ! j < p ! fst acc"
      using Suc False unfolding acc_def by auto
    have step: "fold (argmax_step p) [1..<Suc b] (0, p ! 0) = argmax_step p b acc"
      using False by (simp add: acc_def)
    show ?thesis
    proof (cases "p ! b > snd acc")
      case True
      then have r: "argmax_step p b acc = (b, p ! b)"
        by (simp add: argmax_step_def)
      have "\<forall>j<Suc b. p ! j \<le> p ! b"
        using ih True by (metis less_Suc_eq less_le_not_le linorder_le_cases order_trans)
      moreover have "\<forall>j<b. p ! j < p ! b"
        using ih True by (metis le_less_trans)
      ultimately show ?thesis
        unfolding step r by simp
    next
      case False
      then have r: "argmax_step p b acc = acc"
        by (simp add: argmax_step_def)
      have "\<forall>j<Suc b. p ! j \<le> p ! fst acc"
        using ih False by (auto simp: less_Suc_eq)
      then show ?thesis
        unfolding step r using ih by auto
    qed
  qed
qed

text \<open>
  C3. With temperature 0 and at least one logit, the sampler returns the index of the first
  maximum of the logits: no logit is larger, and every logit before it is strictly smaller.
  The token is the same whatever the generator's state (only the state itself is advanced).
\<close>

theorem sampler_temperature_zero_first_max:
  assumes "temperature sampler = 0" and "1 \<le> ssize sampler"
    and "ssize sampler \<le> length logits"
  shows "\<exists>i. snd (snd (clamma_sampler_sample sampler logits)) = Inr (int i)
             \<and> i < ssize sampler
             \<and> (\<forall>j < ssize sampler. logits ! j \<le> logits ! i)
             \<and> (\<forall>j<i. logits ! j < logits ! i)
             \<and> (\<forall>seed. snd (snd (clamma_sampler_sample (sampler\<lparr>rng_state := seed\<rparr>) logits))
                         = Inr (int i))"
proof -
  let ?i = "fst (fold (argmax_step logits) [1..<ssize sampler] (0, logits ! 0))"
  have ne: "logits \<noteq> []" "\<not> length logits < ssize sampler"
    using assms by auto
  have res: "snd (snd (clamma_sampler_sample (sampler\<lparr>rng_state := seed\<rparr>) logits)) = Inr (int ?i)"
    for seed
    using assms(1) ne
    by (simp add: clamma_sampler_sample_def sample_argmax_def Let_def split: prod.splits)
  have "snd (snd (clamma_sampler_sample sampler logits)) = Inr (int ?i)"
    using res [of "rng_state sampler"] by simp
  with argmax_fold [OF assms(2,3)] res show ?thesis
    by blast
qed

theorem sampler_temperature_zero_first_max_witness:
  "\<exists>i. snd (snd (clamma_sampler_sample
                \<lparr>ssize = 4, temperature = 0, topp = 9 / 10, rng_state = 7\<rparr> [1, 3, 3, 2]))
          = Inr (int i)
       \<and> i = 1
       \<and> (\<forall>seed. snd (snd (clamma_sampler_sample
                \<lparr>ssize = 4, temperature = 0, topp = 9 / 10, rng_state = seed\<rparr> [1, 3, 3, 2]))
                  = Inr 1)"
proof -
  let ?s = "\<lparr>ssize = 4, temperature = 0, topp = 9 / 10, rng_state = 7\<rparr>"
  let ?l = "[1, 3, 3, 2 :: f32]"
  obtain i where i: "snd (snd (clamma_sampler_sample ?s ?l)) = Inr (int i)"
      "(\<forall>j < ssize ?s. ?l ! j \<le> ?l ! i)" "(\<forall>j<i. ?l ! j < ?l ! i)" "i < ssize ?s"
      "\<forall>seed. snd (snd (clamma_sampler_sample (?s\<lparr>rng_state := seed\<rparr>) ?l)) = Inr (int i)"
    using sampler_temperature_zero_first_max [of ?s ?l] by auto
  have a: "?l ! 1 \<le> ?l ! i" using i(2) [rule_format, of 1] by simp
  have b: "1 < i \<Longrightarrow> ?l ! 1 < ?l ! i" using i(3) [rule_format, of 1] by simp
  have "i < 4" using i(4) by simp
  then consider "i = 0" | "i = 1" | "i = 2" | "i = 3" by linarith
  then have "i = 1"
  proof cases
    case 1 with a show ?thesis by simp
  next
    case 2 then show ?thesis .
  next
    case 3 with b show ?thesis by simp
  next
    case 4 with a show ?thesis by simp
  qed
  with i(1,5) show ?thesis by auto
qed

text \<open>
  C10. The top-p path reads \<open>probindex[-1]\<close> when no probability reaches the cutoff
  \<open>(1 - topp) / (n - 1)\<close>: two equal logits with \<open>topp = 0.1\<close> give probabilities \<open>1/2\<close>
  below the cutoff \<open>0.9\<close>, so \<open>n0 = 0\<close>, \<open>last_idx = -1\<close>, neither loop runs, and the
  final \<^verbatim>\<open>return probindex[last_idx].index\<close> is outside the array.
\<close>

theorem sample_topp_no_candidates_out_of_bounds:
  "snd (snd (clamma_sampler_sample
      \<lparr>ssize = 2, temperature = 1, topp = 1 / 10, rng_state = 1\<rparr> [0, 0])) = Inl OutOfBounds"
proof -
  have sm: "session_softmax [0, 0] 2 = [1 / 2, 1 / 2]"
    by (simp add: session_softmax_def Let_def upt_rec [of 1] numeral_2_eq_2)
  have up2: "[0..<2] = [0, Suc 0]"
    by (simp add: upt_rec numeral_2_eq_2)
  have tp: "sample_topp [1 / 2, 1 / 2] 2 (1 / 10) coin = Inl OutOfBounds" for coin
    by (simp add: sample_topp_def up2 f32_ge_quot_def qsort_compare_def)
  show ?thesis
    by (simp add: clamma_sampler_sample_def Let_def sm tp split: prod.splits)
qed

section \<open>Dispatching a matmul\<close>

lemma mod_shift_ne:
  fixes h k N :: nat
  assumes "0 < k" "k < N" "h < N"
  shows "(h + k) mod N \<noteq> h"
proof
  assume e: "(h + k) mod N = h"
  show False
  proof (cases "h + k < N")
    case True
    with e assms show False by simp
  next
    case False
    then have "(h + k) mod N = h + k - N"
      using assms by (simp add: mod_if)
    with e assms show False by simp
  qed
qed

lemma dispatch_loop_props:
  assumes "dispatch_loop asserts fill n d ct m part (w, q) = Inr (w', q')"
    and "m \<le> ct" and "ct - m \<le> length (job_ring w)" and "job_head w < length (job_ring w)"
  shows "q' = q + int (ct - m)
       \<and> length (job_ring w') = length (job_ring w)
       \<and> job_tail w' = job_tail w
       \<and> job_head w' = (job_head w + (ct - m)) mod length (job_ring w)
       \<and> (\<forall>k < ct - m. job_ring w' ! ((job_head w + k) mod length (job_ring w))
             = band_job (fill (job_ring w ! ((job_head w + k) mod length (job_ring w))))
                 (part + k * (d div ct)) n d (m + k) ct)
       \<and> (\<forall>s < length (job_ring w).
             (\<forall>k < ct - m. s \<noteq> (job_head w + k) mod length (job_ring w))
               \<longrightarrow> job_ring w' ! s = job_ring w ! s)"
  using assms
proof (induction "ct - m" arbitrary: m part w q)
  case 0
  then have "dispatch_loop asserts fill n d ct m part (w, q) = Inr (w, q)"
    by (subst dispatch_loop.simps) simp
  with 0 show ?case by simp
next
  case (Suc r)
  let ?N = "length (job_ring w)"
  let ?h = "job_head w"
  have lt: "m < ct" and r: "r = ct - (m + 1)" using Suc.hyps(2) by auto
  have hd: "?h < ?N" by fact
  define j where "j = band_job (fill (job_ring w ! ?h)) part n d m ct"
  define w1 where "w1 = w\<lparr>job_ring := (job_ring w)[?h := j], job_head := (?h + 1) mod ?N\<rparr>"
  have unf: "dispatch_loop asserts fill n d ct m part (w, q) =
      (if asserts \<and> job_head w1 = job_tail w1 then Inl AssertFailed
       else if asserts \<and> \<not> q + 1 < int ?N then Inl AssertFailed
       else dispatch_loop asserts fill n d ct (m + 1) (part + d div ct) (w1, q + 1))"
    using lt hd by (subst dispatch_loop.simps) (simp add: Let_def j_def w1_def)
  have rec: "dispatch_loop asserts fill n d ct (m + 1) (part + d div ct) (w1, q + 1) = Inr (w', q')"
    using Suc.prems(1) unfolding unf by (simp split: if_splits)
  have len1: "length (job_ring w1) = ?N" by (simp add: w1_def)
  have hd1: "job_head w1 = (?h + 1) mod ?N" by (simp add: w1_def)
  have tl1: "job_tail w1 = job_tail w" by (simp add: w1_def)
  have Npos: "0 < ?N" using hd by auto
  have rN: "Suc r \<le> ?N" using Suc.prems(3) Suc.hyps(2) by simp
  have ih: "q' = q + 1 + int r"
    "length (job_ring w') = ?N"
    "job_tail w' = job_tail w"
    "job_head w' = ((?h + 1) mod ?N + r) mod ?N"
    "\<And>k. k < r \<Longrightarrow> job_ring w' ! (((?h + 1) mod ?N + k) mod ?N)
             = band_job (fill (job_ring w1 ! (((?h + 1) mod ?N + k) mod ?N)))
                 (part + d div ct + k * (d div ct)) n d (m + 1 + k) ct"
    "\<And>s. s < ?N \<Longrightarrow> (\<forall>k < r. s \<noteq> ((?h + 1) mod ?N + k) mod ?N)
               \<Longrightarrow> job_ring w' ! s = job_ring w1 ! s"
    using Suc.hyps(1) [OF r rec] lt rN Npos unfolding len1 hd1 tl1 r [symmetric]
    by auto
  have shift: "((?h + 1) mod ?N + k) mod ?N = (?h + Suc k) mod ?N" for k
    by (simp add: mod_add_left_eq)
  have ne: "(?h + Suc k) mod ?N \<noteq> ?h" if "k < r" for k
    using mod_shift_ne [of "Suc k" ?N ?h] that rN hd by simp
  have old: "job_ring w1 ! s = job_ring w ! s" if "s \<noteq> ?h" for s
    using that by (simp add: w1_def)
  have at_h: "job_ring w' ! ?h = j"
  proof -
    have "job_ring w' ! ?h = job_ring w1 ! ?h"
      using ih(6) [OF hd] ne unfolding shift by metis
    then show ?thesis using hd by (simp add: w1_def)
  qed
  have cm: "ct - m = Suc r" using Suc.hyps(2) by simp
  have slots: "job_ring w' ! ((?h + k) mod ?N)
        = band_job (fill (job_ring w ! ((?h + k) mod ?N))) (part + k * (d div ct)) n d (m + k) ct"
    if "k < Suc r" for k
  proof (cases k)
    case 0
    then show ?thesis using at_h hd by (simp add: j_def)
  next
    case (Suc k')
    then have k': "k' < r" using that by simp
    show ?thesis
      using ih(5) [OF k'] old [OF ne [OF k']] unfolding shift Suc
      by (simp add: algebra_simps)
  qed
  have frame: "job_ring w' ! s = job_ring w ! s"
    if "s < ?N" and un: "\<forall>k < Suc r. s \<noteq> (?h + k) mod ?N" for s
  proof -
    have "s \<noteq> ?h" using un [rule_format, of 0] hd by simp
    moreover have "\<forall>k < r. s \<noteq> ((?h + 1) mod ?N + k) mod ?N"
      using un unfolding shift by auto
    ultimately show ?thesis using ih(6) [OF that(1)] old by simp
  qed
  have "job_head w' = (?h + Suc r) mod ?N"
    using ih(4) shift [of r] by simp
  with ih(1,2,3) slots frame show ?case
    unfolding cm by simp
qed

lemma dispatch_loop_returns:
  assumes "job_head w < length (job_ring w)" and "m \<le> ct"
    and "asserts \<Longrightarrow>
           (\<forall>k < ct - m. (job_head w + k + 1) mod length (job_ring w) \<noteq> job_tail w)
           \<and> q + int (ct - m) < int (length (job_ring w))"
  shows "\<exists>w' q'. dispatch_loop asserts fill n d ct m part (w, q) = Inr (w', q')"
  using assms
proof (induction "ct - m" arbitrary: m part w q)
  case 0
  then show ?case by (subst dispatch_loop.simps) simp
next
  case (Suc r)
  let ?N = "length (job_ring w)"
  let ?h = "job_head w"
  have lt: "m < ct" and r: "r = ct - (m + 1)" using Suc.hyps(2) by auto
  have hd: "?h < ?N" by fact
  define j where "j = band_job (fill (job_ring w ! ?h)) part n d m ct"
  define w1 where "w1 = w\<lparr>job_ring := (job_ring w)[?h := j], job_head := (?h + 1) mod ?N\<rparr>"
  have unf: "dispatch_loop asserts fill n d ct m part (w, q) =
      (if asserts \<and> job_head w1 = job_tail w1 then Inl AssertFailed
       else if asserts \<and> \<not> q + 1 < int ?N then Inl AssertFailed
       else dispatch_loop asserts fill n d ct (m + 1) (part + d div ct) (w1, q + 1))"
    using lt hd by (subst dispatch_loop.simps) (simp add: Let_def j_def w1_def)
  have len1: "length (job_ring w1) = ?N" by (simp add: w1_def)
  have hd1: "job_head w1 = (?h + 1) mod ?N" by (simp add: w1_def)
  have tl1: "job_tail w1 = job_tail w" by (simp add: w1_def)
  have cm: "ct - m = Suc r" using Suc.hyps(2) by simp
  have g1: "\<not> (asserts \<and> job_head w1 = job_tail w1)"
  proof
    assume a: "asserts \<and> job_head w1 = job_tail w1"
    then have "\<forall>k < Suc r. (?h + k + 1) mod ?N \<noteq> job_tail w"
      using Suc.prems(3) unfolding cm by simp
    from this [rule_format, of 0] a show False
      unfolding hd1 tl1 by simp
  qed
  have g2: "\<not> (asserts \<and> \<not> q + 1 < int ?N)"
    using Suc.prems(3) [unfolded cm] by auto
  have shift: "((?h + 1) mod ?N + k + 1) mod ?N = (?h + Suc k + 1) mod ?N" for k
  proof -
    have "((?h + 1) mod ?N + (k + 1)) mod ?N = (?h + 1 + (k + 1)) mod ?N"
      by (rule mod_add_left_eq)
    then show ?thesis by (simp add: ac_simps)
  qed
  have "\<exists>w' q'. dispatch_loop asserts fill n d ct (m + 1) (part + d div ct) (w1, q + 1)
          = Inr (w', q')"
  proof (rule Suc.hyps(1) [OF r])
    have "0 < ?N" using hd by auto
    then show "job_head w1 < length (job_ring w1)"
      by (simp add: w1_def)
    show "m + 1 \<le> ct" using lt by simp
    show "(\<forall>k<ct - (m + 1). (job_head w1 + k + 1) mod length (job_ring w1) \<noteq> job_tail w1)
          \<and> q + 1 + int (ct - (m + 1)) < int (length (job_ring w1))" if asserts
    proof -
      have a: "\<forall>k < Suc r. (?h + k + 1) mod ?N \<noteq> job_tail w"
        and b: "q + int (Suc r) < int ?N"
        using Suc.prems(3) [OF that] unfolding cm by auto
      have "(job_head w1 + k + 1) mod ?N \<noteq> job_tail w" if "k < r" for k
        using a [rule_format, of "Suc k"] that unfolding hd1 shift by simp
      then show ?thesis using b unfolding len1 tl1 r [symmetric] by simp
    qed
  qed
  then show ?case unfolding unf using g1 g2 by simp
qed

lemma band_partition:
  fixes ct d r :: nat
  assumes "1 \<le> ct" "r < d"
  shows "\<exists>!m. m < ct \<and> m * (d div ct) \<le> r
              \<and> r < (if m = ct - 1 then d else (m + 1) * (d div ct))"
proof -
  let ?b = "d div ct"
  let ?P = "\<lambda>m. m < ct \<and> m * ?b \<le> r \<and> r < (if m = ct - 1 then d else (m + 1) * ?b)"
  have ex: "\<exists>m. ?P m"
  proof (cases "r < (ct - 1) * ?b")
    case True
    then have bpos: "0 < ?b" by (cases "?b = 0") auto
    have "r div ?b < ct - 1"
      using True bpos by (simp add: div_less_iff_less_mult)
    moreover have "(r div ?b) * ?b \<le> r" by simp
    moreover have "r < (r div ?b + 1) * ?b"
      using bpos by (metis Suc_eq_plus1 dividend_less_div_times mult.commute mult_Suc_right add.commute)
    ultimately have "?P (r div ?b)" by auto
    then show ?thesis ..
  next
    case False
    then have "?P (ct - 1)" using assms by auto
    then show ?thesis ..
  qed
  have uniq: "m1 = m2" if "?P m1" "?P m2" for m1 m2
  proof -
    have no: False if lt: "a < c" and a: "?P a" and c: "?P c" for a c
    proof -
      have "a \<noteq> ct - 1" using lt c by auto
      then have "r < (a + 1) * ?b" using a by simp
      also have "\<dots> \<le> c * ?b" using lt by (intro mult_le_mono1) simp
      finally show False using c by simp
    qed
    show ?thesis
      using no [of m1 m2] no [of m2 m1] that by (metis nat_neq_iff)
  qed
  from ex uniq show ?thesis by blast
qed

text \<open>
  C4 (as the code has it). With \<open>count_threads \<ge> 1\<close> workers and a ring of at least that
  many slots, a dispatch writes exactly \<open>count_threads\<close> jobs, into the slots from
  \<open>job_head\<close> on, and leaves every other slot alone; job \<open>m\<close> covers the rows from
  \<open>m * (d div count_threads)\<close> up to \<open>(m + 1) * (d div count_threads)\<close>, the last one up to
  \<open>d\<close>: bands of \<open>d div count_threads\<close> rows (rounded down), the last band taking the
  remainder. Every row below \<open>d\<close> lies in exactly one band, and \<open>queued\<close> grows by
  \<open>count_threads\<close>. \<^verbatim>\<open>session_matmul_qt\<close> always returns; \<^verbatim>\<open>session_matmul\<close> returns when its
  assertions hold, which they do when none of the slots it passes is the tail and the
  counter stays below the capacity.
\<close>

theorem matmul_dispatch_floor_bands:
  assumes "1 \<le> count_threads" and "count_threads \<le> length (job_ring w)"
    and "job_head w < length (job_ring w)"
  shows "(\<exists>w' q'. session_matmul_qt count_threads (w, queued) tss xout x w1 n d = Inr (w', q'))
     \<and> ((\<forall>k < count_threads. (job_head w + k + 1) mod length (job_ring w) \<noteq> job_tail w)
          \<and> queued + int count_threads < int (length (job_ring w))
        \<longrightarrow> (\<exists>w' q'. session_matmul count_threads (w, queued) tss xout x w1 n d = Inr (w', q')))
     \<and> (\<forall>r ty w' q'.
          (r = session_matmul_qt count_threads (w, queued) tss xout x w1 n d
             \<and> ty = CLAMMA_JOB_MATMUL_QT
           \<or> r = session_matmul count_threads (w, queued) tss xout x w1 n d
             \<and> ty = CLAMMA_JOB_MATMUL)
          \<and> r = Inr (w', q')
        \<longrightarrow> q' = queued + int count_threads
          \<and> length (job_ring w') = length (job_ring w)
          \<and> job_tail w' = job_tail w
          \<and> job_head w' = (job_head w + count_threads) mod length (job_ring w)
          \<and> (\<forall>m < count_threads.
                j_tss (job_ring w' ! ((job_head w + m) mod length (job_ring w))) = tss
              \<and> j_type (job_ring w' ! ((job_head w + m) mod length (job_ring w))) = ty
              \<and> j_xout (job_ring w' ! ((job_head w + m) mod length (job_ring w))) = xout
              \<and> j_n (job_ring w' ! ((job_head w + m) mod length (job_ring w))) = n
              \<and> j_d (job_ring w' ! ((job_head w + m) mod length (job_ring w))) = d
              \<and> j_i (job_ring w' ! ((job_head w + m) mod length (job_ring w)))
                  = m * (d div count_threads)
              \<and> j_dlim (job_ring w' ! ((job_head w + m) mod length (job_ring w)))
                  = (if m = count_threads - 1 then d else (m + 1) * (d div count_threads)))
          \<and> (\<forall>s < length (job_ring w).
                (\<forall>m < count_threads. s \<noteq> (job_head w + m) mod length (job_ring w))
                \<longrightarrow> job_ring w' ! s = job_ring w ! s)
          \<and> (\<forall>row < d. \<exists>!m. m < count_threads
                \<and> j_i (job_ring w' ! ((job_head w + m) mod length (job_ring w))) \<le> row
                \<and> row < j_dlim (job_ring w' ! ((job_head w + m) mod length (job_ring w)))))"
proof (intro conjI allI impI)
  show "\<exists>w' q'. session_matmul_qt count_threads (w, queued) tss xout x w1 n d = Inr (w', q')"
    unfolding session_matmul_qt_def
    by (rule dispatch_loop_returns) (use assms in simp_all)
next
  assume "(\<forall>k < count_threads. (job_head w + k + 1) mod length (job_ring w) \<noteq> job_tail w)
          \<and> queued + int count_threads < int (length (job_ring w))"
  then show "\<exists>w' q'. session_matmul count_threads (w, queued) tss xout x w1 n d = Inr (w', q')"
    unfolding session_matmul_def
    by (intro dispatch_loop_returns) (use assms in simp_all)
next
  fix r ty w' q'
  assume a: "(r = session_matmul_qt count_threads (w, queued) tss xout x w1 n d
             \<and> ty = CLAMMA_JOB_MATMUL_QT
           \<or> r = session_matmul count_threads (w, queued) tss xout x w1 n d
             \<and> ty = CLAMMA_JOB_MATMUL)
          \<and> r = Inr (w', q')"
  let ?N = "length (job_ring w)"
  let ?slot = "\<lambda>m. job_ring w' ! ((job_head w + m) mod ?N)"
  obtain asserts fill where
    run: "dispatch_loop asserts fill n d count_threads 0 0 (w, queued) = Inr (w', q')"
    and fill: "\<And>j. j_tss (fill j) = tss \<and> j_type (fill j) = ty \<and> j_xout (fill j) = xout"
    using a unfolding session_matmul_qt_def session_matmul_def
    by (elim conjE disjE) (rule that, simp, simp)+
  note p = dispatch_loop_props [OF run, simplified]
  have props: "q' = queued + int count_threads" "length (job_ring w') = ?N"
    "job_tail w' = job_tail w" "job_head w' = (job_head w + count_threads) mod ?N"
    "\<And>m. m < count_threads \<Longrightarrow>
        ?slot m = band_job (fill (job_ring w ! ((job_head w + m) mod ?N)))
                    (m * (d div count_threads)) n d m count_threads"
    "\<And>s. s < ?N \<Longrightarrow> (\<forall>m < count_threads. s \<noteq> (job_head w + m) mod ?N)
        \<Longrightarrow> job_ring w' ! s = job_ring w ! s"
    using p assms by auto
  show "q' = queued + int count_threads" "length (job_ring w') = ?N"
    "job_tail w' = job_tail w" "job_head w' = (job_head w + count_threads) mod ?N"
    by (fact props)+
  have bi: "j_i (?slot m) = m * (d div count_threads)"
    and bd: "j_dlim (?slot m) = (if m = count_threads - 1 then d else (m + 1) * (d div count_threads))"
    if "m < count_threads" for m
    using props(5) [OF that] by (simp_all add: band_job_def)
  show "j_tss (?slot m) = tss" "j_type (?slot m) = ty" "j_xout (?slot m) = xout"
    "j_n (?slot m) = n" "j_d (?slot m) = d"
    "j_i (?slot m) = m * (d div count_threads)"
    "j_dlim (?slot m) = (if m = count_threads - 1 then d else (m + 1) * (d div count_threads))"
    if "m < count_threads" for m
    using props(5) [OF that] fill by (simp_all add: band_job_def)
  show "job_ring w' ! s = job_ring w ! s"
    if "s < ?N" "\<forall>m < count_threads. s \<noteq> (job_head w + m) mod ?N" for s
    using props(6) that by simp
  show "\<exists>!m. m < count_threads \<and> j_i (?slot m) \<le> row \<and> row < j_dlim (?slot m)"
    if "row < d" for row
  proof -
    have "(m < count_threads \<and> j_i (?slot m) \<le> row \<and> row < j_dlim (?slot m))
        = (m < count_threads \<and> m * (d div count_threads) \<le> row
            \<and> row < (if m = count_threads - 1 then d else (m + 1) * (d div count_threads)))" for m
      using bi [of m] bd [of m] by auto
    then show ?thesis
      using band_partition [OF assms(1) that] by simp
  qed
qed

text \<open>The theorem at three workers, ten rows and a ring of eight slots whose head is 6.\<close>

theorem matmul_dispatch_floor_bands_witness:
  "\<exists>w' q'. session_matmul 3 (\<lparr>job_ring = replicate 8 job_zero, job_head = 6, job_tail = 6\<rparr>, 0)
              1 100 200 300 4 10 = Inr (w', q')
     \<and> q' = 3 \<and> job_head w' = 1
     \<and> j_i (job_ring w' ! 6) = 0 \<and> j_dlim (job_ring w' ! 6) = 3
     \<and> j_i (job_ring w' ! 7) = 3 \<and> j_dlim (job_ring w' ! 7) = 6
     \<and> j_i (job_ring w' ! 0) = 6 \<and> j_dlim (job_ring w' ! 0) = 10
     \<and> job_ring w' ! 1 = job_zero"
proof -
  let ?w = "\<lparr>job_ring = replicate 8 job_zero, job_head = 6, job_tail = 6\<rparr>"
  have h: "1 \<le> (3::nat)" "3 \<le> length (job_ring ?w)" "job_head ?w < length (job_ring ?w)"
    by simp_all
  note t = matmul_dispatch_floor_bands [OF h, of 0 1 100 200 300 4 10]
  have room: "(\<forall>k < 3. (job_head ?w + k + 1) mod length (job_ring ?w) \<noteq> job_tail ?w)
      \<and> 0 + int 3 < int (length (job_ring ?w))"
    by (simp add: numeral_3_eq_3 less_Suc_eq)
  from t [THEN conjunct2, THEN conjunct1] room
  obtain w' q' where r: "session_matmul 3 (?w, 0) 1 100 200 300 4 10 = Inr (w', q')"
    by blast
  note post = t [THEN conjunct2, THEN conjunct2, rule_format, of _ CLAMMA_JOB_MATMUL w' q',
      OF conjI [OF disjI2 [OF conjI [OF refl refl]] r]]
  note q = post [THEN conjunct1]
  note hd = post [THEN conjunct2, THEN conjunct2, THEN conjunct2, THEN conjunct1]
  note band = post [THEN conjunct2, THEN conjunct2, THEN conjunct2, THEN conjunct2,
      THEN conjunct1, rule_format]
  note frame = post [THEN conjunct2, THEN conjunct2, THEN conjunct2, THEN conjunct2,
      THEN conjunct2, THEN conjunct1, rule_format]
  have b0: "j_i (job_ring w' ! 6) = 0 \<and> j_dlim (job_ring w' ! 6) = 3"
    using band [of 0] by simp
  have b1: "j_i (job_ring w' ! 7) = 3 \<and> j_dlim (job_ring w' ! 7) = 6"
    using band [of 1] by simp
  have b2: "j_i (job_ring w' ! 0) = 6 \<and> j_dlim (job_ring w' ! 0) = 10"
    using band [of 2] by simp
  have un: "\<forall>m < 3. (1::nat) \<noteq> (job_head ?w + m) mod length (job_ring ?w)"
    by (simp add: numeral_3_eq_3 less_Suc_eq)
  have f1: "job_ring w' ! 1 = job_zero"
    using frame [of 1, OF _ un [rule_format]] by simp
  from r q hd b0 b1 b2 f1 show ?thesis by simp
qed

text \<open>
  The bands are not of \<open>\<lceil>d / n_threads\<rceil>\<close> rows: ten rows over three workers give the bands
  \<open>[0, 3)\<close>, \<open>[3, 6)\<close> and \<open>[6, 10)\<close>, while \<open>\<lceil>10 / 3\<rceil> = 4\<close>.
\<close>

theorem matmul_band_size_is_not_ceiling:
  "\<not> isl (session_matmul_qt 3
        (\<lparr>job_ring = replicate 8 job_zero, job_head = 0, job_tail = 0\<rparr>, 0) 1 100 200 300 4 10)
   \<and> map (\<lambda>j. (j_i j, j_dlim j)) (take 3 (job_ring (fst (projr (session_matmul_qt 3
        (\<lparr>job_ring = replicate 8 job_zero, job_head = 0, job_tail = 0\<rparr>, 0) 1 100 200 300 4 10)))))
       = [(0, 3), (3, 6), (6, 10)]
   \<and> \<lceil>10 / 3 :: real\<rceil> = 4"
proof -
  have "\<lceil>10 / 3 :: real\<rceil> = 4" by linarith
  moreover have "\<not> isl (session_matmul_qt 3
        (\<lparr>job_ring = replicate 8 job_zero, job_head = 0, job_tail = 0\<rparr>, 0) 1 100 200 300 4 10)"
    by code_simp
  moreover have "map (\<lambda>j. (j_i j, j_dlim j)) (take 3 (job_ring (fst (projr (session_matmul_qt 3
        (\<lparr>job_ring = replicate 8 job_zero, job_head = 0, job_tail = 0\<rparr>, 0) 1 100 200 300 4 10)))))
       = [(0, 3), (3, 6), (6, 10)]"
    by code_simp
  ultimately show ?thesis by blast
qed

section \<open>Quantizing and dequantizing\<close>

subsection \<open>Rounding to binary32\<close>

lemma ties_even_err: "\<bar>of_int (ties_even y) - y\<bar> \<le> 1 / 2"
  unfolding ties_even_def Let_def by (auto; linarith)

lemma ties_even_of_int [simp]: "ties_even (of_int z) = z"
  by (simp add: ties_even_def)

lemma f32_expo_ge: "- 126 \<le> f32_expo x"
  by (simp add: f32_expo_def)

lemma f32_expo_le: "f32_expo x \<le> 127"
proof -
  have "length (takeWhile (\<lambda>k. 2 powi (int k - 125) \<le> \<bar>x\<bar>) [0..<253]) \<le> length [0..<253]"
    by (rule length_takeWhile_le)
  then show ?thesis by (simp add: f32_expo_def)
qed

lemma f32_expo_lower':
  assumes "- 126 < f32_expo x"
  shows "2 powi (f32_expo x) \<le> \<bar>x\<bar>"
proof -
  let ?P = "\<lambda>k. 2 powi (int k - 125) \<le> \<bar>x\<bar>"
  define tw where "tw = takeWhile ?P [0..<253]"
  define n where "n = length tw"
  have e: "f32_expo x = int n - 126" by (simp add: f32_expo_def n_def tw_def)
  have n: "0 < n" using assms e by simp
  have le: "n \<le> 253" using length_takeWhile_le [of ?P "[0..<253]"] by (simp add: n_def tw_def)
  have "tw ! (n - 1) \<in> set tw" using n by (simp add: n_def)
  then have "?P (tw ! (n - 1))" unfolding tw_def by (rule set_takeWhileD [THEN conjunct2])
  moreover have "tw ! (n - 1) = [0..<253] ! (n - 1)"
    unfolding tw_def using n by (intro takeWhile_nth) (simp add: n_def tw_def)
  moreover have "[0..<253] ! (n - 1) = n - 1" using n le by simp
  ultimately have "2 powi (int (n - 1) - 125) \<le> \<bar>x\<bar>" by simp
  moreover have "int (n - 1) - 125 = f32_expo x" using n e by (simp add: of_nat_diff)
  ultimately show ?thesis by simp
qed

lemma f32_expo_lower:
  assumes "2 powi (- 126) \<le> \<bar>x\<bar>"
  shows "2 powi (f32_expo x) \<le> \<bar>x\<bar>"
proof (cases "- 126 < f32_expo x")
  case True
  then show ?thesis by (rule f32_expo_lower')
next
  case False
  then have "f32_expo x = - 126" using f32_expo_ge [of x] by simp
  then show ?thesis using assms by simp
qed

lemma f32_expo_upper:
  assumes "\<bar>x\<bar> < 2 powi 128"
  shows "\<bar>x\<bar> < 2 powi (f32_expo x + 1)"
proof -
  let ?P = "\<lambda>k. 2 powi (int k - 125) \<le> \<bar>x\<bar>"
  let ?n = "length (takeWhile ?P [0..<253])"
  have le: "?n \<le> 253" using length_takeWhile_le [of ?P "[0..<253]"] by simp
  show ?thesis
  proof (cases "?n < 253")
    case True
    then have "\<not> ?P ([0..<253] ! ?n)"
      by (intro nth_length_takeWhile) simp
    then have "\<bar>x\<bar> < 2 powi (int ?n - 125)" using True by simp
    moreover have "int ?n - 125 = f32_expo x + 1" by (simp add: f32_expo_def)
    ultimately show ?thesis by simp
  next
    case False
    then have "f32_expo x + 1 = 128" using le by (simp add: f32_expo_def)
    then show ?thesis using assms by simp
  qed
qed

lemma f32_expo_bound:
  assumes "\<bar>x\<bar> < 2 powi (e + 1)" and "- 126 \<le> e"
  shows "f32_expo x \<le> e"
proof (rule ccontr)
  assume "\<not> f32_expo x \<le> e"
  then have e: "e + 1 \<le> f32_expo x" by simp
  then have "- 126 < f32_expo x" using assms(2) by simp
  then have "2 powi (f32_expo x) \<le> \<bar>x\<bar>" by (rule f32_expo_lower')
  moreover have "(2::real) powi (e + 1) \<le> 2 powi (f32_expo x)"
    using e by (intro power_int_increasing) simp_all
  ultimately show False using assms(1) by linarith
qed

lemma rnd32_0 [simp]: "rnd32 0 = 0"
  by (simp add: rnd32_def ties_even_def)

lemma rnd32_err: "\<bar>rnd32 x - x\<bar> \<le> 2 powi (f32_expo x - 24)"
proof -
  define u :: real where "u = 2 powi (f32_expo x - 23)"
  have u: "0 < u" by (simp add: u_def)
  have "rnd32 x - x = (of_int (ties_even (x / u)) - x / u) * u"
    using u by (simp add: rnd32_def u_def [symmetric] algebra_simps)
  then have "\<bar>rnd32 x - x\<bar> = \<bar>of_int (ties_even (x / u)) - x / u\<bar> * u"
    using u by (simp add: abs_mult)
  also have "\<dots> \<le> (1 / 2) * u"
    using ties_even_err [of "x / u"] u by (intro mult_right_mono) simp_all
  also have "\<dots> = 2 powi (f32_expo x - 24)"
  proof -
    have "f32_expo x - 23 = (f32_expo x - 24) + 1" by simp
    then have "u = 2 powi (f32_expo x - 24) * 2"
      unfolding u_def by (simp only: power_int_add [of "2::real", simplified] power_int_1_right)
    then show ?thesis by simp
  qed
  finally show ?thesis .
qed

lemma rnd32_rel:
  assumes "2 powi (- 126) \<le> \<bar>x\<bar>"
  shows "\<bar>rnd32 x - x\<bar> \<le> \<bar>x\<bar> / 2 ^ 24"
proof -
  have "(2::real) powi (f32_expo x - 24) = 2 powi (f32_expo x) / 2 ^ 24"
    by (simp add: power_int_diff)
  also have "\<dots> \<le> \<bar>x\<bar> / 2 ^ 24"
    using f32_expo_lower [OF assms] by (intro divide_right_mono) simp_all
  finally show ?thesis using rnd32_err [of x] by linarith
qed

lemma rnd32_exact:
  assumes x: "x = of_int m * 2 powi k" and m: "\<bar>m\<bar> < 2 ^ 24" and k: "- 149 \<le> k"
  shows "rnd32 x = x"
proof -
  define e where "e = f32_expo x"
  have "\<bar>x\<bar> = of_int \<bar>m\<bar> * 2 powi k" by (simp add: x abs_mult)
  also have "\<dots> < 2 ^ 24 * 2 powi k"
    using m by (intro mult_strict_right_mono) (simp_all add: of_int_less_numeral_power_cancel_iff)
  also have "\<dots> = 2 powi (k + 24)"
    by (simp add: power_int_add)
  finally have lt: "\<bar>x\<bar> < 2 powi ((k + 23) + 1)" by (simp add: algebra_simps)
  have "e \<le> k + 23"
    unfolding e_def using lt k by (intro f32_expo_bound) simp_all
  then obtain j where j: "k - (e - 23) = int j"
    using nonneg_int_cases [of "k - (e - 23)"] by auto
  define u :: real where "u = 2 powi (e - 23)"
  have u: "0 < u" by (simp add: u_def)
  have kj: "k = int j + (e - 23)" using j by simp
  have "(2::real) powi k = 2 powi (int j + (e - 23))" by (simp only: kj [symmetric])
  also have "\<dots> = (2::real) ^ j * u" by (simp add: power_int_add u_def)
  finally have "x / u = of_int (m * 2 ^ j)" using u by (simp add: x)
  then have "ties_even (x / u) = m * 2 ^ j" by (simp only: ties_even_of_int)
  then have "rnd32 x = of_int (m * 2 ^ j) * u"
    by (simp add: rnd32_def e_def [symmetric] u_def [symmetric])
  also have "\<dots> = x" using \<open>x / u = of_int (m * 2 ^ j)\<close> u by (simp add: field_simps)
  finally show ?thesis .
qed

lemma t2: "rnd32 (1 / 127) = 8454660 / 2 ^ 30"
  by code_simp

lemma f32_expo_eq:
  assumes "2 powi e \<le> \<bar>x\<bar>" and "\<bar>x\<bar> < 2 powi (e + 1)" and "- 126 \<le> e" and "e \<le> 127"
  shows "f32_expo x = e"
proof (rule antisym)
  show "f32_expo x \<le> e" using assms(2,3) by (rule f32_expo_bound)
  show "e \<le> f32_expo x"
  proof (rule ccontr)
    assume "\<not> e \<le> f32_expo x"
    then have lt: "f32_expo x + 1 \<le> e" by simp
    have "(2::real) powi (e + 1) \<le> 2 powi 128"
      using assms(4) by (intro power_int_increasing) simp_all
    then have "\<bar>x\<bar> < 2 powi 128" using assms(2) by linarith
    then have "\<bar>x\<bar> < 2 powi (f32_expo x + 1)" by (rule f32_expo_upper)
    moreover have "(2::real) powi (f32_expo x + 1) \<le> 2 powi e"
      using lt by (intro power_int_increasing) simp_all
    ultimately show False using assms(1) by linarith
  qed
qed

lemma rnd32_eval:
  assumes "2 powi e \<le> \<bar>x\<bar>" and "\<bar>x\<bar> < 2 powi (e + 1)" and "- 126 \<le> e" and "e \<le> 127"
  shows "rnd32 x = of_int (ties_even (x / 2 powi (e - 23))) * 2 powi (e - 23)"
  by (simp add: rnd32_def f32_expo_eq [OF assms] Let_def)

subsection \<open>The loops of the quantizer\<close>

lemma c_round_of_int: "c_round (of_int z) = z"
proof -
  have "\<lfloor>of_int z + (1 / 2 :: real)\<rfloor> = z" by linarith
  moreover have "\<lfloor>- of_int z + (1 / 2 :: real)\<rfloor> = - z" by linarith
  ultimately show ?thesis by (simp add: c_round_def)
qed

lemma c_round_near:
  assumes "\<bar>v - of_int z\<bar> < 1 / 2"
  shows "c_round v = z"
proof -
  have "\<lfloor>v + 1 / 2\<rfloor> = z" using assms by linarith
  moreover have "\<lfloor>- v + 1 / 2\<rfloor> = - z" using assms by linarith
  ultimately show ?thesis by (simp add: c_round_def)
qed

lemma cq_t_cast_id: "- 128 \<le> z \<Longrightarrow> z \<le> 127 \<Longrightarrow> cq_t_cast z = z"
  by (simp add: cq_t_cast_def)

lemma group_wmax_Suc:
  "group_wmax x b (Suc k) =
     (if \<bar>x ! (b + k)\<bar> > group_wmax x b k then \<bar>x ! (b + k)\<bar> else group_wmax x b k)"
  by (simp add: group_wmax_def)

lemma group_wmax_bounds:
  "(\<forall>i<k. \<bar>x ! (b + i)\<bar> \<le> group_wmax x b k)
   \<and> (group_wmax x b k = 0 \<or> (\<exists>i<k. group_wmax x b k = \<bar>x ! (b + i)\<bar>))"
proof (induction k)
  case 0
  show ?case by (simp add: group_wmax_def)
next
  case (Suc k)
  show ?case
  proof (cases "\<bar>x ! (b + k)\<bar> > group_wmax x b k")
    case True
    then have "\<forall>i<Suc k. \<bar>x ! (b + i)\<bar> \<le> \<bar>x ! (b + k)\<bar>"
      using Suc by (auto simp: less_Suc_eq intro: order_trans less_imp_le)
    then show ?thesis using True unfolding group_wmax_Suc by auto
  next
    case False
    then have "\<forall>i<Suc k. \<bar>x ! (b + i)\<bar> \<le> group_wmax x b k"
      using Suc by (auto simp: less_Suc_eq)
    moreover have "group_wmax x b k = 0 \<or> (\<exists>i<Suc k. group_wmax x b k = \<bar>x ! (b + i)\<bar>)"
      using Suc by (auto simp: less_Suc_eq)
    ultimately show ?thesis using False unfolding group_wmax_Suc by simp
  qed
qed

lemma group_store_props:
  "length (group_store fdiv x b k scale q0) = length q0
   \<and> (\<forall>i<k. b + i < length q0 \<longrightarrow>
         group_store fdiv x b k scale q0 ! (b + i) = quantize_value fdiv scale (x ! (b + i)))
   \<and> (\<forall>j. (j < b \<or> b + k \<le> j) \<longrightarrow> group_store fdiv x b k scale q0 ! j = q0 ! j)"
proof (induction k)
  case 0
  show ?case by (simp add: group_store_def)
next
  case (Suc k)
  have step: "group_store fdiv x b (Suc k) scale q0
      = (group_store fdiv x b k scale q0)[b + k := quantize_value fdiv scale (x ! (b + k))]"
    by (simp add: group_store_def)
  show ?case
    unfolding step using Suc by (auto simp: less_Suc_eq nth_list_update)
qed

lemma quantize_fold_result:
  assumes "k * G \<le> length (qt_q qx)" and "k \<le> length (qt_s qx)"
  shows "length (qt_q (fold (quantize_group fdiv G x) [0..<k] qx)) = length (qt_q qx)
       \<and> length (qt_s (fold (quantize_group fdiv G x) [0..<k] qx)) = length (qt_s qx)
       \<and> (\<forall>g<k. qt_s (fold (quantize_group fdiv G x) [0..<k] qx) ! g
                   = fdiv (group_wmax x (g * G) G) 127)
       \<and> (\<forall>g<k. \<forall>i<G. qt_q (fold (quantize_group fdiv G x) [0..<k] qx) ! (g * G + i)
                   = quantize_value fdiv (fdiv (group_wmax x (g * G) G) 127) (x ! (g * G + i)))
       \<and> (\<forall>j\<ge>k * G. qt_q (fold (quantize_group fdiv G x) [0..<k] qx) ! j = qt_q qx ! j)
       \<and> (\<forall>g\<ge>k. qt_s (fold (quantize_group fdiv G x) [0..<k] qx) ! g = qt_s qx ! g)"
  using assms
proof (induction k)
  case 0
  show ?case by simp
next
  case (Suc k)
  define r where "r = fold (quantize_group fdiv G x) [0..<k] qx"
  define sc where "sc = fdiv (group_wmax x (k * G) G) 127"
  have pre: "k * G \<le> length (qt_q qx)" "k \<le> length (qt_s qx)"
    using Suc.prems by simp_all
  from Suc.IH [OF pre]
  have ih: "length (qt_q r) = length (qt_q qx)" "length (qt_s r) = length (qt_s qx)"
    "\<forall>g<k. qt_s r ! g = fdiv (group_wmax x (g * G) G) 127"
    "\<forall>g<k. \<forall>i<G. qt_q r ! (g * G + i)
        = quantize_value fdiv (fdiv (group_wmax x (g * G) G) 127) (x ! (g * G + i))"
    "\<forall>j\<ge>k * G. qt_q r ! j = qt_q qx ! j" "\<forall>g\<ge>k. qt_s r ! g = qt_s qx ! g"
    unfolding r_def by blast+
  define q' where "q' = group_store fdiv x (k * G) G sc (qt_q r)"
  have run: "fold (quantize_group fdiv G x) [0..<Suc k] qx
      = r\<lparr>qt_s := (qt_s r)[k := sc], qt_q := q'\<rparr>"
    by (simp add: r_def quantize_group_def Let_def sc_def q'_def)
  from group_store_props [of fdiv x "k * G" G sc "qt_q r"]
  have gl: "length q' = length (qt_q r)"
    and gw: "\<forall>i<G. k * G + i < length (qt_q r) \<longrightarrow>
               q' ! (k * G + i) = quantize_value fdiv sc (x ! (k * G + i))"
    and gf: "\<forall>j. (j < k * G \<or> k * G + G \<le> j) \<longrightarrow> q' ! j = qt_q r ! j"
    unfolding q'_def by blast+
  have kl: "k < length (qt_s r)" "k * G + G \<le> length (qt_q r)"
    using Suc.prems ih(1,2) by simp_all
  have s1: "\<forall>g<Suc k. (qt_s r)[k := sc] ! g = fdiv (group_wmax x (g * G) G) 127"
    using ih(3) kl(1) by (auto simp: less_Suc_eq nth_list_update sc_def)
  have s2: "\<forall>g\<ge>Suc k. (qt_s r)[k := sc] ! g = qt_s qx ! g"
    using ih(6) by (auto simp: nth_list_update)
  have q1: "q' ! (g * G + i)
      = quantize_value fdiv (fdiv (group_wmax x (g * G) G) 127) (x ! (g * G + i))"
    if "g < Suc k" "i < G" for g i
  proof (cases "g = k")
    case True
    have "k * G + i < length (qt_q r)" using kl(2) that(2) by simp
    then show ?thesis using gw that(2) True by (simp add: sc_def)
  next
    case False
    then have g: "g < k" using that(1) by simp
    then have "Suc g \<le> k" by simp
    then have "Suc g * G \<le> k * G" by (rule mult_le_mono1)
    then have "g * G + i < k * G" using that(2) by simp
    then show ?thesis using gf ih(4) g that(2) by simp
  qed
  have q2: "\<forall>j\<ge>Suc k * G. q' ! j = qt_q qx ! j"
    using gf ih(5) by simp
  show ?case
    unfolding run using gl ih(1,2) s1 s2 q1 q2 by simp
qed

lemma group_wmax_zero:
  assumes "\<forall>i<G. x ! (b + i) = 0"
  shows "group_wmax x b G = 0"
  using group_wmax_bounds [of G x b] assms by auto

text \<open>
  C5. If the length of \<open>x\<close> is a multiple of the group size and the largest absolute value
  of group \<open>g\<close> is 0, \<^verbatim>\<open>quantize\<close> returns, having stored the scale 0 for the group and 0
  for each of its quantized values. (The values are \<^verbatim>\<open>(cq_t)round(0.0f / 0.0f)\<close>, the
  conversion of a NaN, which gives 0 in the build described with \<open>cq_t_cast\<close>.)
\<close>

theorem quantize_zero_group:
  assumes "0 < G"
    and "length x = m * G"
    and "m * G \<le> length (qt_q qx)" and "m \<le> length (qt_s qx)"
    and "g < m"
    and "group_wmax x (g * G) G = 0"
  shows "\<exists>qx'. quantize f32_div G qx x (m * G) = Inr qx'
           \<and> qt_s qx' ! g = 0 \<and> (\<forall>i<G. qt_q qx' ! (g * G + i) = 0)"
proof -
  define r where "r = fold (quantize_group f32_div G x) [0..<m] qx"
  have "quantize f32_div G qx x (m * G) = Inr r"
    using assms(1-4) by (simp add: quantize_def r_def)
  moreover have sc: "f32_div (group_wmax x (g * G) G) 127 = 0"
    using assms(6) by (simp add: f32_div_def)
  from quantize_fold_result [OF assms(3,4), of f32_div x]
  have fs: "\<forall>g<m. qt_s r ! g = f32_div (group_wmax x (g * G) G) 127"
    and fq: "\<forall>g<m. \<forall>i<G. qt_q r ! (g * G + i)
        = quantize_value f32_div (f32_div (group_wmax x (g * G) G) 127) (x ! (g * G + i))"
    unfolding r_def by blast+
  have "qt_s r ! g = 0"
    using fs assms(5) sc by simp
  moreover have "\<forall>i<G. qt_q r ! (g * G + i) = 0"
    using fq assms(5) sc by (simp add: quantize_value_def)
  ultimately show ?thesis by blast
qed

text \<open>The theorem at two groups of two values, the first one all zero.\<close>

theorem quantize_zero_group_witness:
  "\<exists>qx'. quantize f32_div 2 \<lparr>qt_q = [5, 5, 5, 5], qt_s = [9, 9]\<rparr> [0, 0, 3, 1] (2 * 2) = Inr qx'
         \<and> qt_s qx' ! 0 = 0 \<and> qt_q qx' ! 0 = 0 \<and> qt_q qx' ! 1 = 0"
proof -
  have w: "group_wmax [0, 0, 3, 1] (0 * 2) 2 = 0"
    by (simp add: group_wmax_def upt_rec [of 0] numeral_2_eq_2)
  from quantize_zero_group [of 2 "[0, 0, 3, 1]" 2 "\<lparr>qt_q = [5, 5, 5, 5], qt_s = [9, 9]\<rparr>" 0, OF _ _ _ _ _ w]
  obtain qx' where "quantize f32_div 2 \<lparr>qt_q = [5, 5, 5, 5], qt_s = [9, 9]\<rparr> [0, 0, 3, 1] (2 * 2) = Inr qx'"
    "qt_s qx' ! 0 = 0" "\<forall>i<2. qt_q qx' ! (0 * 2 + i) = 0"
    by auto
  moreover from this(3) have "qt_q qx' ! 0 = 0" "qt_q qx' ! 1 = 0"
    by simp_all
  ultimately show ?thesis by blast
qed

subsection \<open>The round trip\<close>

lemma rnd32_near_int:
  assumes "\<bar>y - of_int z\<bar> \<le> 1 / 50" and "\<bar>z\<bar> \<le> 127"
  shows "c_round (rnd32 y) = z"
proof -
  have "\<bar>of_int z :: real\<bar> \<le> 127" using assms(2) by linarith
  then have "\<bar>y\<bar> < 256" using assms(1) by linarith
  then have "\<bar>y\<bar> < 2 powi (7 + 1)" by simp
  then have "f32_expo y \<le> 7" by (rule f32_expo_bound) simp
  then have "(2::real) powi (f32_expo y - 24) \<le> 2 powi (- 17)"
    by (intro power_int_increasing) simp_all
  then have "\<bar>rnd32 y - y\<bar> \<le> 2 powi (- 17)"
    using rnd32_err [of y] by linarith
  then have "\<bar>rnd32 y - y\<bar> \<le> 1 / 50" by (simp add: power_int_minus)
  then have "\<bar>rnd32 y - of_int z\<bar> < 1 / 2" using assms(1) by linarith
  then show ?thesis by (rule c_round_near)
qed

lemma group_roundtrip:
  fixes s :: real
  assumes G: "0 < G"
    and s: "2 powi (- 125) \<le> s"
    and x: "\<forall>i<G. x ! (b + i) = f32_mul (of_int (q ! (b + i))) s"
    and bnd: "\<forall>i<G. \<bar>q ! (b + i)\<bar> \<le> 127"
    and full: "\<exists>i<G. \<bar>q ! (b + i)\<bar> = 127"
  shows "\<bar>f32_div (group_wmax x b G) 127 - s\<bar> \<le> s / 2 ^ 22"
    and "\<forall>i<G. quantize_value f32_div (f32_div (group_wmax x b G) 127) (x ! (b + i)) = q ! (b + i)"
proof -
  have s0: "0 < s"
  proof -
    have "(0::real) < 2 powi (- 125)" by simp
    with s show ?thesis by linarith
  qed
  have s126: "2 powi (- 126) \<le> s / 2"
  proof -
    have "(2::real) powi (- 125) = 2 powi (- 126) * 2"
      using power_int_add [of "2::real" "- 126" 1] by simp
    with s show ?thesis by linarith
  qed
  define W where "W = group_wmax x b G"
  define a where "a = W / 127"
  define s' where "s' = f32_div W 127"
  have e1: "\<bar>x ! (b + i) - of_int (q ! (b + i)) * s\<bar> \<le> 127 * s / 2 ^ 24" if i: "i < G" for i
  proof (cases "q ! (b + i) = 0")
    case True
    then show ?thesis using x i s0 by (simp add: f32_mul_def)
  next
    case False
    define z where "z = q ! (b + i)"
    have z: "z \<noteq> 0" "\<bar>z\<bar> \<le> 127" using False bnd i by (simp_all add: z_def)
    have z1: "1 \<le> \<bar>of_int z :: real\<bar>" using z(1) by linarith
    have z2: "\<bar>of_int z :: real\<bar> \<le> 127" using z(2) by linarith
    have "s \<le> \<bar>of_int z\<bar> * s" using z1 s0 by (simp add: mult_le_cancel_right1)
    moreover have "\<bar>of_int z * s\<bar> = \<bar>of_int z\<bar> * s" using s0 by (simp add: abs_mult)
    ultimately have "2 powi (- 126) \<le> \<bar>of_int z * s\<bar>"
      using s126 s0 by linarith
    then have "\<bar>rnd32 (of_int z * s) - of_int z * s\<bar> \<le> \<bar>of_int z * s\<bar> / 2 ^ 24"
      by (rule rnd32_rel)
    moreover have "\<bar>of_int z * s\<bar> \<le> 127 * s"
      using z2 s0 by (simp add: abs_mult mult_right_mono)
    ultimately have "\<bar>rnd32 (of_int z * s) - of_int z * s\<bar> \<le> 127 * s / 2 ^ 24"
      by (simp add: divide_right_mono order_trans [OF _ divide_right_mono])
    then show ?thesis using x i by (simp add: f32_mul_def z_def)
  qed
  have up: "\<bar>x ! (b + i)\<bar> \<le> 127 * s + 127 * s / 2 ^ 24" if i: "i < G" for i
  proof -
    have "\<bar>q ! (b + i)\<bar> \<le> 127" using bnd i by simp
    then have "\<bar>of_int (q ! (b + i)) :: real\<bar> \<le> 127" by linarith
    then have "\<bar>of_int (q ! (b + i)) * s\<bar> \<le> 127 * s"
      using s0 by (simp add: abs_mult mult_right_mono)
    with e1 [OF i] show ?thesis by linarith
  qed
  obtain i0 where i0: "i0 < G" "\<bar>q ! (b + i0)\<bar> = 127" using full by blast
  have low: "127 * s - 127 * s / 2 ^ 24 \<le> \<bar>x ! (b + i0)\<bar>"
  proof -
    have "\<bar>of_int (q ! (b + i0)) :: real\<bar> = 127" using i0(2) by linarith
    then have "\<bar>of_int (q ! (b + i0)) * s\<bar> = 127 * s" using s0 by (simp add: abs_mult)
    with e1 [OF i0(1)] show ?thesis by linarith
  qed
  from group_wmax_bounds [of G x b]
  have wub: "\<forall>i<G. \<bar>x ! (b + i)\<bar> \<le> W"
    and att: "W = 0 \<or> (\<exists>i<G. W = \<bar>x ! (b + i)\<bar>)"
    unfolding W_def by blast+
  have Wlo: "127 * s - 127 * s / 2 ^ 24 \<le> W" using wub i0(1) low by fastforce
  then have "0 < W" using s0 by simp
  with att obtain i1 where "i1 < G" "W = \<bar>x ! (b + i1)\<bar>" by auto
  with up [of i1] have Whi: "W \<le> 127 * s + 127 * s / 2 ^ 24" by simp
  have Wa: "W = 127 * a" by (simp add: a_def)
  have alo: "s - s / 2 ^ 24 \<le> a" using Wlo unfolding Wa by simp
  have ahi: "a \<le> s + s / 2 ^ 24" using Whi unfolding Wa by simp
  have a126: "2 powi (- 126) \<le> \<bar>a\<bar>" using alo s126 s0 by simp
  have a0: "0 < a" using alo s0 by simp
  have "\<bar>rnd32 a - a\<bar> \<le> \<bar>a\<bar> / 2 ^ 24" using a126 by (rule rnd32_rel)
  then have sa: "\<bar>s' - a\<bar> \<le> a / 2 ^ 24"
    using a0 by (simp add: s'_def f32_div_def a_def)
  have ss: "\<bar>s' - s\<bar> \<le> s / 2 ^ 22"
  proof -
    have "s' - a \<le> a / 2 ^ 24" "a - s' \<le> a / 2 ^ 24" using sa by linarith+
    moreover have "a / 2 ^ 24 \<le> (s + s / 2 ^ 24) / 2 ^ 24"
      using ahi by (intro divide_right_mono) simp_all
    moreover have "(s + s / 2 ^ 24) / 2 ^ 24 + s / 2 ^ 24 \<le> s / 2 ^ 22" using s0 by simp
    ultimately have "s' - s \<le> s / 2 ^ 22" "s - s' \<le> s / 2 ^ 22" using alo ahi by linarith+
    then show ?thesis by linarith
  qed
  then show "\<bar>f32_div (group_wmax x b G) 127 - s\<bar> \<le> s / 2 ^ 22"
    by (simp add: s'_def W_def)
  have s'lo: "s / 2 \<le> s'"
  proof -
    have "s / 2 ^ 22 \<le> s / 2" using s0 by simp
    moreover have "s - s' \<le> s / 2 ^ 22" using ss by linarith
    ultimately show ?thesis by linarith
  qed
  have s'0: "0 < s'" using s'lo s0 by simp
  have "quantize_value f32_div s' (x ! (b + i)) = q ! (b + i)" if i: "i < G" for i
  proof -
    define z where "z = q ! (b + i)"
    define v where "v = x ! (b + i)"
    have z: "\<bar>z\<bar> \<le> 127" using bnd i by (simp add: z_def)
    then have z2: "\<bar>of_int z :: real\<bar> \<le> 127" by linarith
    have "\<bar>of_int z * (s - s')\<bar> \<le> 127 * (s / 2 ^ 22)"
    proof -
      have "\<bar>of_int z * (s - s')\<bar> = \<bar>of_int z\<bar> * \<bar>s' - s\<bar>"
        by (simp add: abs_mult abs_minus_commute)
      also have "\<dots> \<le> 127 * (s / 2 ^ 22)"
        using z2 ss by (intro mult_mono) simp_all
      finally show ?thesis .
    qed
    moreover have "v - of_int z * s' = (v - of_int z * s) + of_int z * (s - s')"
      by (simp add: algebra_simps)
    ultimately have "\<bar>v - of_int z * s'\<bar> \<le> 127 * s / 2 ^ 24 + 127 * (s / 2 ^ 22)"
      using e1 [OF i] unfolding v_def z_def by linarith
    also have "\<dots> \<le> (1 / 50) * (s / 2)" using s0 by simp
    also have "\<dots> \<le> (1 / 50) * s'" using s'lo by simp
    finally have d: "\<bar>v - of_int z * s'\<bar> \<le> (1 / 50) * s'" .
    have "v / s' - of_int z = (v - of_int z * s') / s'"
      using s'0 by (simp add: field_simps)
    then have "\<bar>v / s' - of_int z\<bar> = \<bar>v - of_int z * s'\<bar> / s'"
      using s'0 by (simp add: abs_divide)
    also have "\<dots> \<le> ((1 / 50) * s') / s'"
      using d s'0 by (intro divide_right_mono) simp_all
    also have "\<dots> = 1 / 50" using s'0 by simp
    finally have "\<bar>v / s' - of_int z\<bar> \<le> 1 / 50" .
    then have "c_round (rnd32 (v / s')) = z" using z by (rule rnd32_near_int)
    moreover have "cq_t_cast z = z" using z by (intro cq_t_cast_id) linarith+
    ultimately show ?thesis
      using s'0 by (simp add: quantize_value_def f32_div_def v_def z_def)
  qed
  then show "\<forall>i<G. quantize_value f32_div (f32_div (group_wmax x b G) 127) (x ! (b + i))
               = q ! (b + i)"
    by (simp add: s'_def W_def)
qed

lemma group_roundtrip_exact:
  fixes s :: real
  assumes G: "0 < G"
    and sm: "s = of_int m * 2 powi k" and m: "0 < m" "127 * m < 2 ^ 24" and k: "- 149 \<le> k"
    and x: "\<forall>i<G. x ! (b + i) = f32_mul (of_int (q ! (b + i))) s"
    and bnd: "\<forall>i<G. \<bar>q ! (b + i)\<bar> \<le> 127"
    and full: "\<exists>i<G. \<bar>q ! (b + i)\<bar> = 127"
  shows "f32_div (group_wmax x b G) 127 = s"
proof -
  have s0: "0 < s" using m(1) by (simp add: sm)
  have xi: "x ! (b + i) = of_int (q ! (b + i)) * s" if i: "i < G" for i
  proof -
    define z where "z = q ! (b + i)"
    have z: "\<bar>z\<bar> \<le> 127" using bnd i by (simp add: z_def)
    have "\<bar>z * m\<bar> = \<bar>z\<bar> * m" using m(1) by (simp add: abs_mult)
    also have "\<dots> \<le> 127 * m" using z m(1) by (intro mult_right_mono) simp_all
    finally have zm: "\<bar>z * m\<bar> < 2 ^ 24" using m(2) by linarith
    have "of_int z * s = of_int (z * m) * 2 powi k" by (simp add: sm)
    then have "rnd32 (of_int z * s) = of_int z * s"
      using zm k by (rule rnd32_exact)
    then show ?thesis using x i by (simp add: f32_mul_def z_def)
  qed
  have le: "\<bar>x ! (b + i)\<bar> \<le> 127 * s" if i: "i < G" for i
  proof -
    have "\<bar>q ! (b + i)\<bar> \<le> 127" using bnd i by simp
    then have "\<bar>of_int (q ! (b + i)) :: real\<bar> \<le> 127" by linarith
    then show ?thesis using s0 unfolding xi [OF i] by (simp add: abs_mult mult_right_mono)
  qed
  obtain i0 where i0: "i0 < G" "\<bar>q ! (b + i0)\<bar> = 127" using full by blast
  have "\<bar>of_int (q ! (b + i0)) :: real\<bar> = 127" using i0(2) by linarith
  then have top: "\<bar>x ! (b + i0)\<bar> = 127 * s"
    using s0 unfolding xi [OF i0(1)] by (simp add: abs_mult)
  from group_wmax_bounds [of G x b]
  have up: "\<forall>i<G. \<bar>x ! (b + i)\<bar> \<le> group_wmax x b G"
    and att: "group_wmax x b G = 0 \<or> (\<exists>i<G. group_wmax x b G = \<bar>x ! (b + i)\<bar>)"
    by blast+
  have ge: "127 * s \<le> group_wmax x b G" using up i0(1) top by metis
  then have "group_wmax x b G \<noteq> 0" using s0 by simp
  with att obtain i where "i < G" "group_wmax x b G = \<bar>x ! (b + i)\<bar>" by blast
  with le [of i] ge have W: "group_wmax x b G = 127 * s" by simp
  have "\<bar>m\<bar> < 2 ^ 24" using m by linarith
  with sm have "rnd32 s = s" using k by (rule rnd32_exact)
  then show ?thesis by (simp add: W f32_div_def)
qed

lemma f32_ops_example:
  "f32_mul 1 1 = 1" "f32_mul 0 1 = 0"
  "f32_div 1 127 = 2113665 / 268435456"
  "f32_div 1 (2113665 / 268435456) = 127"
  "f32_div 0 (2113665 / 268435456) = 0"
  by (simp_all add: f32_mul_def f32_div_def rnd32_eval [of 0] rnd32_eval [of "- 7"]
      rnd32_eval [of 6] ties_even_def power_int_minus)

lemma f32_ops_example2:
  "f32_mul 127 (157223 / 1048576) = 2495915 / 131072"
  "f32_mul 108 (157223 / 1048576) = 4245021 / 262144"
  "f32_div (2495915 / 131072) 127 = 10062271 / 67108864"
  "f32_div (2495915 / 131072) (10062271 / 67108864) = 16646145 / 131072"
  "f32_div (4245021 / 262144) (10062271 / 67108864) = 14155777 / 131072"
  by (simp_all add: f32_mul_def f32_div_def rnd32_eval [of 4] rnd32_eval [of "- 3"]
      rnd32_eval [of 6] ties_even_def power_int_minus)

text \<open>
  C6 (as the code has it). \<^verbatim>\<open>quantize\<close> rescales every group so that its largest
  absolute value becomes 127. On the pairs it produces itself (every value between \<open>- 127\<close>
  and 127, 127 reached in absolute value in every group, every scale a normal number between
  \<open>2 powi (- 125)\<close> and \<open>2 powi 120\<close>) dequantizing and quantizing again returns the same
  quantized values, whatever the output buffers held, and every scale within a relative
  distance of \<open>1 / 2 ^ 22\<close>. It returns the scale itself when the scale is \<open>m * 2 powi k\<close>
  with \<open>127 * m < 2 ^ 24\<close>, for then every product is exact.
\<close>

theorem quantize_dequantize_canonical:
  assumes G: "0 < G"
    and len: "length (qt_q p) = G * length (qt_s p)"
    and rng: "\<forall>g < length (qt_s p). 2 powi (- 125) \<le> qt_s p ! g \<and> qt_s p ! g \<le> 2 powi 120"
    and bnd: "\<forall>i < length (qt_q p). \<bar>qt_q p ! i\<bar> \<le> 127"
    and full: "\<forall>g < length (qt_s p). \<exists>i<G. \<bar>qt_q p ! (g * G + i)\<bar> = 127"
    and bq: "length (qt_q buf) = length (qt_q p)"
    and bs: "length (qt_s buf) = length (qt_s p)"
  shows "\<exists>x qx. dequantize f32_mul G p (length (qt_q p)) = Inr x
             \<and> quantize f32_div G buf x (length (qt_q p)) = Inr qx
             \<and> qt_q qx = qt_q p
             \<and> length (qt_s qx) = length (qt_s p)
             \<and> (\<forall>g < length (qt_s p). \<bar>qt_s qx ! g - qt_s p ! g\<bar> \<le> qt_s p ! g / 2 ^ 22)
             \<and> (\<forall>g m k. g < length (qt_s p) \<and> qt_s p ! g = of_int m * 2 powi k
                         \<and> 127 * m < 2 ^ 24 \<and> - 149 \<le> k
                    \<longrightarrow> qt_s qx ! g = qt_s p ! g)"
proof -
  let ?n = "length (qt_q p)"
  let ?S = "length (qt_s p)"
  define x :: "real list"
    where "x = map (\<lambda>i. f32_mul (of_int (qt_q p ! i)) (qt_s p ! (i div G))) [0..<?n]"
  define qx where "qx = fold (quantize_group f32_div G x) [0..<?S] buf"
  have nS: "?n = ?S * G" using len by (simp add: mult.commute)
  have idx: "g * G + i < ?n" if "g < ?S" "i < G" for g i
  proof -
    have "g * G + i < Suc g * G" using that by simp
    also have "\<dots> \<le> ?S * G" using that by (intro mult_le_mono1) simp
    finally show ?thesis using nS by simp
  qed
  have deq: "dequantize f32_mul G p ?n = Inr x"
  proof -
    have "(?n - 1) div G < ?S" if "0 < ?n"
      using that G nS by (simp add: less_mult_imp_div_less)
    then show ?thesis using G by (auto simp: dequantize_def x_def)
  qed
  have quant: "quantize f32_div G buf x ?n = Inr qx"
  proof -
    have "length x = ?n" by (simp add: x_def)
    moreover have "?n div G = ?S" using G nS by simp
    ultimately show ?thesis using G nS bq bs by (simp add: quantize_def Let_def qx_def)
  qed
  have xi: "\<forall>i<G. x ! (g * G + i) = f32_mul (of_int (qt_q p ! (g * G + i))) (qt_s p ! g)"
    if "g < ?S" for g
    using idx [OF that] that G by (simp add: x_def)
  have bg: "\<forall>i<G. \<bar>qt_q p ! (g * G + i)\<bar> \<le> 127" if "g < ?S" for g
    using bnd idx [OF that] by simp
  have b1: "?S * G \<le> length (qt_q buf)" "?S \<le> length (qt_s buf)"
    using bq bs nS by simp_all
  from quantize_fold_result [OF b1, of f32_div x]
  have lq: "length (qt_q qx) = ?n" and ls: "length (qt_s qx) = ?S"
    and fs: "\<forall>g<?S. qt_s qx ! g = f32_div (group_wmax x (g * G) G) 127"
    and fq: "\<forall>g<?S. \<forall>i<G. qt_q qx ! (g * G + i)
        = quantize_value f32_div (f32_div (group_wmax x (g * G) G) 127) (x ! (g * G + i))"
    unfolding qx_def [symmetric] using bq bs by simp_all
  have qi: "qt_q qx ! j = qt_q p ! j" if "j < ?n" for j
  proof -
    define g where "g = j div G"
    define i where "i = j mod G"
    have j: "j = g * G + i" by (simp add: g_def i_def)
    have i: "i < G" using G by (simp add: i_def)
    have g: "g < ?S" using that nS G by (simp add: g_def less_mult_imp_div_less)
    have s: "2 powi (- 125) \<le> qt_s p ! g" using rng g by simp
    from group_roundtrip(2) [OF G s xi [OF g] bg [OF g]] full g
    have "quantize_value f32_div (f32_div (group_wmax x (g * G) G) 127) (x ! (g * G + i))
            = qt_q p ! (g * G + i)"
      using i by simp
    then show ?thesis using fq g i unfolding j by simp
  qed
  have "qt_q qx = qt_q p"
    using lq qi by (intro nth_equalityI) simp_all
  moreover have "\<bar>qt_s qx ! g - qt_s p ! g\<bar> \<le> qt_s p ! g / 2 ^ 22" if g: "g < ?S" for g
  proof -
    have s: "2 powi (- 125) \<le> qt_s p ! g" using rng g by simp
    from group_roundtrip(1) [OF G s xi [OF g] bg [OF g]] full g
    show ?thesis using fs g by simp
  qed
  moreover have "qt_s qx ! g = qt_s p ! g"
    if "g < ?S \<and> qt_s p ! g = of_int m * 2 powi k \<and> 127 * m < 2 ^ 24 \<and> - 149 \<le> k"
    for g m k
  proof -
    have g: "g < ?S" and sm: "qt_s p ! g = of_int m * 2 powi k"
      and m: "127 * m < 2 ^ 24" and k: "- 149 \<le> k"
      using that by simp_all
    have "(0::real) < 2 powi (- 125)" by simp
    then have "0 < qt_s p ! g" using rng g by (meson less_le_trans)
    then have "0 < (of_int m :: real) * 2 powi k" by (simp only: sm)
    moreover have "0 < (2::real) powi k" by simp
    ultimately have "0 < (of_int m :: real)" by (rule zero_less_mult_pos2)
    then have m0: "0 < m" by simp
    have fl: "\<exists>i<G. \<bar>qt_q p ! (g * G + i)\<bar> = 127" using full g by simp
    from group_roundtrip_exact [OF G sm m0 m k xi [OF g] bg [OF g] fl]
    show ?thesis using fs g by simp
  qed
  ultimately show ?thesis using deq quant ls by blast
qed

text \<open>The theorem at one group of two values with the scale \<open>1 / 2\<close>: the pair comes back.\<close>

theorem quantize_dequantize_canonical_witness:
  "\<exists>x. dequantize f32_mul 2 \<lparr>qt_q = [127, - 64], qt_s = [1 / 2]\<rparr> 2 = Inr x
       \<and> quantize f32_div 2 \<lparr>qt_q = [0, 0], qt_s = [0]\<rparr> x 2
           = Inr \<lparr>qt_q = [127, - 64], qt_s = [1 / 2]\<rparr>"
proof -
  let ?p = "\<lparr>qt_q = [127, - 64], qt_s = [1 / 2 :: real]\<rparr>"
  let ?buf = "\<lparr>qt_q = [0, 0], qt_s = [0 :: real]\<rparr>"
  have h: "0 < (2::nat)" "length (qt_q ?p) = 2 * length (qt_s ?p)"
    "\<forall>g < length (qt_s ?p). 2 powi (- 125) \<le> qt_s ?p ! g \<and> qt_s ?p ! g \<le> 2 powi 120"
    "\<forall>i < length (qt_q ?p). \<bar>qt_q ?p ! i\<bar> \<le> 127"
    "\<forall>g < length (qt_s ?p). \<exists>i<2. \<bar>qt_q ?p ! (g * 2 + i)\<bar> = 127"
    "length (qt_q ?buf) = length (qt_q ?p)" "length (qt_s ?buf) = length (qt_s ?p)"
    by (auto simp: less_Suc_eq numeral_2_eq_2 power_int_minus)
  from quantize_dequantize_canonical [OF h]
  obtain x qx where r: "dequantize f32_mul 2 ?p (length (qt_q ?p)) = Inr x"
    "quantize f32_div 2 ?buf x (length (qt_q ?p)) = Inr qx"
    "qt_q qx = qt_q ?p" "length (qt_s qx) = length (qt_s ?p)"
    "\<forall>g m k. g < length (qt_s ?p) \<and> qt_s ?p ! g = of_int m * 2 powi k
                         \<and> 127 * m < 2 ^ 24 \<and> - 149 \<le> k
                    \<longrightarrow> qt_s qx ! g = qt_s ?p ! g"
    by blast
  have "qt_s qx ! 0 = qt_s ?p ! 0"
    by (rule r(5) [rule_format, of 0 1 "- 1"]) (simp add: power_int_minus)
  then have "qt_s qx = [1 / 2]"
    using r(4) by (cases "qt_s qx") simp_all
  then have "qx = ?p" using r(3) by simp
  then show ?thesis using r(1,2) by (auto simp: numeral_2_eq_2)
qed

text \<open>
  On other pairs the round trip changes the pair: \<open>q = [1, 0]\<close>, \<open>s = [1]\<close> dequantizes to
  \<open>[1, 0]\<close>, which quantizes to \<open>q = [127, 0]\<close> and the binary32 value of \<open>1 / 127\<close>.
\<close>

theorem quantize_dequantize_not_identity:
  "dequantize f32_mul 2 \<lparr>qt_q = [1, 0], qt_s = [1]\<rparr> 2 = Inr [1, 0]
   \<and> quantize f32_div 2 \<lparr>qt_q = [0, 0], qt_s = [0]\<rparr> [1, 0] 2
       = Inr \<lparr>qt_q = [127, 0], qt_s = [2113665 / 268435456]\<rparr>"
  by (simp add: quantize_def quantize_group_def group_wmax_def group_store_def quantize_value_def
      dequantize_def upt_rec [of 0] numeral_2_eq_2 f32_ops_example c_round_def cq_t_cast_def
      Let_def)

text \<open>
  And a scale need not come back even on a pair that \<^verbatim>\<open>quantize\<close> could have produced:
  with \<open>q = [127, 108]\<close> and \<open>s = 157223 / 2 ^ 20\<close> the product \<open>127 * s\<close> has 25
  significant bits and is rounded, and the scale returned is the next binary32 value below
  \<open>s\<close>.
\<close>

lemma quantize_dequantize_scale_ulp:
  "dequantize f32_mul 2 \<lparr>qt_q = [127, 108], qt_s = [157223 / 1048576]\<rparr> 2
       = Inr [2495915 / 131072, 4245021 / 262144]
   \<and> quantize f32_div 2 \<lparr>qt_q = [0, 0], qt_s = [0]\<rparr> [2495915 / 131072, 4245021 / 262144] 2
       = Inr \<lparr>qt_q = [127, 108], qt_s = [10062271 / 67108864]\<rparr>"
  by (simp add: quantize_def quantize_group_def group_wmax_def group_store_def quantize_value_def
      dequantize_def upt_rec [of 0] numeral_2_eq_2 f32_ops_example2 c_round_def cq_t_cast_def
      Let_def)

section \<open>Eviction from the weight cache\<close>

lemma cwc_evict_drops_prefix:
  assumes "alloced = sum_list (map c_len cs)" and "alloced < 2 ^ 64"
  shows "\<exists>k \<le> length cs.
           cwc_evict limit cs alloced = Inr (drop k cs, sum_list (map c_len (drop k cs)))
         \<and> sum_list (map c_len (drop k cs)) \<le> limit
         \<and> (\<forall>j<k. limit < sum_list (map c_len (drop j cs)))"
  using assms
proof (induction cs arbitrary: alloced)
  case Nil
  then show ?case by simp
next
  case (Cons c cs)
  show ?case
  proof (cases "alloced > limit")
    case False
    then have "cwc_evict limit (c # cs) alloced = Inr (drop 0 (c # cs), alloced)"
      by simp
    with False Cons.prems(1) show ?thesis
      by (intro exI [of _ 0]) simp
  next
    case True
    let ?a = "sum_list (map c_len cs)"
    have a: "u64 (int alloced - int (c_len c)) = ?a"
      using Cons.prems by (simp add: u64_def)
    have "?a < 2 ^ 64" using Cons.prems by simp
    from Cons.IH [OF refl this] obtain k where k: "k \<le> length cs"
      "cwc_evict limit cs ?a = Inr (drop k cs, sum_list (map c_len (drop k cs)))"
      "sum_list (map c_len (drop k cs)) \<le> limit"
      "\<forall>j<k. limit < sum_list (map c_len (drop j cs))"
      by blast
    have "\<forall>j<Suc k. limit < sum_list (map c_len (drop j (c # cs)))"
    proof (intro allI impI)
      fix j assume "j < Suc k"
      then show "limit < sum_list (map c_len (drop j (c # cs)))"
        using k(4) True Cons.prems(1) by (cases j) simp_all
    qed
    with k True a show ?thesis
      by (intro exI [of _ "Suc k"]) simp
  qed
qed

lemma cwc_lookup_miss:
  "(\<forall>c \<in> set cs. \<not> (c_offset c = ofs \<and> c_len c = sz)) \<Longrightarrow> cwc_lookup cs ofs sz = None"
  by (induction cs) auto

text \<open>
  C7 (as the code has it). New entries are linked in at the head of the list, and eviction
  frees from the head: the entries evicted are the most recently inserted ones, and the
  oldest entries are the ones kept. On a miss under the malloc-cache backend with a nonzero
  budget, the shortest prefix of the list is dropped that brings the bytes of the remaining
  entries down to the budget; then the new entry is linked in, so the call ends with at most
  \<open>cache_limit + size\<close> bytes allocated. The byte counter is taken to be the sum of the
  entries' lengths, as it is after any sequence of fetches from the empty cache.
\<close>

theorem weight_cache_miss_evicts_newest:
  assumes "model_access t = CLAMMA_MODEL_ACCESS_MALLOC_CACHE" and "0 < cache_limit t"
    and "cwc_alloced st = sum_list (map c_len (cwc_head st))"
    and "cwc_alloced st + sz < 2 ^ 64"
    and "\<forall>c \<in> set (cwc_head st).
           \<not> (c_offset c = u64 (int weight - int (data t)) \<and> c_len c = sz)"
  shows "\<exists>k st' p. k \<le> length (cwc_head st)
         \<and> clamma_weight_cache True t st weight sz = Inr (st', p)
         \<and> tl (cwc_head st') = drop k (cwc_head st)
         \<and> c_offset (hd (cwc_head st')) = u64 (int weight - int (data t))
         \<and> c_len (hd (cwc_head st')) = sz
         \<and> sum_list (map c_len (drop k (cwc_head st))) \<le> cache_limit t
         \<and> (\<forall>j<k. cache_limit t < sum_list (map c_len (drop j (cwc_head st))))
         \<and> cwc_alloced st' = sum_list (map c_len (drop k (cwc_head st))) + sz"
proof -
  let ?ofs = "u64 (int weight - int (data t))"
  have lt: "cwc_alloced st < 2 ^ 64" using assms(4) by simp
  from cwc_evict_drops_prefix [OF assms(3) lt, of "cache_limit t"]
  obtain k where k: "k \<le> length (cwc_head st)"
    "cwc_evict (cache_limit t) (cwc_head st) (cwc_alloced st)
       = Inr (drop k (cwc_head st), sum_list (map c_len (drop k (cwc_head st))))"
    "sum_list (map c_len (drop k (cwc_head st))) \<le> cache_limit t"
    "\<forall>j<k. cache_limit t < sum_list (map c_len (drop j (cwc_head st)))"
    by blast
  let ?a = "sum_list (map c_len (drop k (cwc_head st)))"
  have "?a \<le> sum_list (map c_len (cwc_head st))"
    by (metis append_take_drop_id le_add2 map_append sum_list_append)
  then have wrap: "u64 (int ?a + int sz) = ?a + sz"
    using assms(3,4) by (simp add: u64_def)
  have miss: "cwc_lookup (cwc_head st) ?ofs sz = None"
    using assms(5) by (rule cwc_lookup_miss)
  show ?thesis
    using assms(1,2) k miss wrap
    by (intro exI [of _ k])
      (auto simp: clamma_weight_cache_def Let_def simp del: sum_list.Cons)
qed

text \<open>The theorem on a cache of two entries of two bytes and a budget of three bytes.\<close>

theorem weight_cache_miss_evicts_newest_witness:
  "\<exists>st' p. clamma_weight_cache True
       \<lparr>model_access = CLAMMA_MODEL_ACCESS_MALLOC_CACHE, cache_limit = 3, data = 0,
        fd_bytes = [11, 12, 13, 14, 15]\<rparr>
       \<lparr>cwc_head = [\<lparr>c_offset = 2, c_len = 2, c_count = 1, c_payload = [13, 14]\<rparr>,
                    \<lparr>c_offset = 0, c_len = 2, c_count = 1, c_payload = [11, 12]\<rparr>],
        cwc_created = 2, cwc_fetched = 4, cwc_touched = 4, cwc_alloced = 4\<rparr> 4 1 = Inr (st', p)
     \<and> map c_offset (cwc_head st') = [4, 0] \<and> cwc_alloced st' = 3"
proof -
  let ?t = "\<lparr>model_access = CLAMMA_MODEL_ACCESS_MALLOC_CACHE, cache_limit = 3, data = 0,
        fd_bytes = [11, 12, 13, 14, 15]\<rparr>"
  let ?B = "\<lparr>c_offset = 2, c_len = 2, c_count = 1, c_payload = [13, 14]\<rparr>"
  let ?A = "\<lparr>c_offset = 0, c_len = 2, c_count = 1, c_payload = [11, 12]\<rparr>"
  let ?st = "\<lparr>cwc_head = [?B, ?A], cwc_created = 2, cwc_fetched = 4, cwc_touched = 4,
        cwc_alloced = 4\<rparr>"
  have h: "model_access ?t = CLAMMA_MODEL_ACCESS_MALLOC_CACHE" "0 < cache_limit ?t"
    "cwc_alloced ?st = sum_list (map c_len (cwc_head ?st))"
    "cwc_alloced ?st + 1 < 2 ^ 64"
    "\<forall>c \<in> set (cwc_head ?st). \<not> (c_offset c = u64 (int 4 - int (data ?t)) \<and> c_len c = 1)"
    by (simp_all add: u64_def)
  from weight_cache_miss_evicts_newest [OF h]
  obtain k st' p where r: "k \<le> length (cwc_head ?st)"
    "clamma_weight_cache True ?t ?st 4 1 = Inr (st', p)"
    "tl (cwc_head st') = drop k (cwc_head ?st)"
    "c_offset (hd (cwc_head st')) = u64 (int 4 - int (data ?t))"
    "sum_list (map c_len (drop k (cwc_head ?st))) \<le> cache_limit ?t"
    "\<forall>j<k. cache_limit ?t < sum_list (map c_len (drop j (cwc_head ?st)))"
    "cwc_alloced st' = sum_list (map c_len (drop k (cwc_head ?st))) + 1"
    by blast
  have "k = 0 \<or> k = 1 \<or> k = 2" using r(1) by auto
  moreover have "k \<noteq> 0"
  proof
    assume "k = 0"
    with r(5) show False by simp
  qed
  moreover have "k \<noteq> 2"
  proof
    assume "k = 2"
    with r(6) [rule_format, of 1] show False by simp
  qed
  ultimately have k: "k = 1" by auto
  have ne: "cwc_head st' \<noteq> []"
    using r(2) by (auto simp: clamma_weight_cache_def Let_def u64_def split: if_splits)
  then have "cwc_head st' = hd (cwc_head st') # tl (cwc_head st')" by simp
  then have "map c_offset (cwc_head st') = c_offset (hd (cwc_head st')) # map c_offset (tl (cwc_head st'))"
    by (metis list.simps(9))
  then have m: "map c_offset (cwc_head st') = [4, 0]"
    unfolding r(3,4) k by (simp add: u64_def)
  have a: "cwc_alloced st' = 3" using r(7) k by simp
  show ?thesis
    by (rule exI [of _ st'], rule exI [of _ p], intro conjI, rule r(2), rule m, rule a)
qed

text \<open>
  Three fetches from the empty cache with a budget of three bytes: the entry at offset 0 is
  created first, the entry at offset 2 second. The second fetch leaves four bytes allocated,
  above the budget. The third fetch then evicts the entry at offset 2, the newest, and
  keeps the entry at offset 0, the oldest.
\<close>

theorem weight_cache_evicts_newest_not_oldest:
  "clamma_weight_cache True
       \<lparr>model_access = CLAMMA_MODEL_ACCESS_MALLOC_CACHE, cache_limit = 3, data = 0,
        fd_bytes = [11, 12, 13, 14, 15]\<rparr>
       \<lparr>cwc_head = [], cwc_created = 0, cwc_fetched = 0, cwc_touched = 0, cwc_alloced = 0\<rparr> 0 2
     = Inr (\<lparr>cwc_head = [\<lparr>c_offset = 0, c_len = 2, c_count = 1, c_payload = [11, 12]\<rparr>],
            cwc_created = 1, cwc_fetched = 2, cwc_touched = 2, cwc_alloced = 2\<rparr>,
            Payload [11, 12])
   \<and> clamma_weight_cache True
       \<lparr>model_access = CLAMMA_MODEL_ACCESS_MALLOC_CACHE, cache_limit = 3, data = 0,
        fd_bytes = [11, 12, 13, 14, 15]\<rparr>
       \<lparr>cwc_head = [\<lparr>c_offset = 0, c_len = 2, c_count = 1, c_payload = [11, 12]\<rparr>],
        cwc_created = 1, cwc_fetched = 2, cwc_touched = 2, cwc_alloced = 2\<rparr> 2 2
     = Inr (\<lparr>cwc_head = [\<lparr>c_offset = 2, c_len = 2, c_count = 1, c_payload = [13, 14]\<rparr>,
                        \<lparr>c_offset = 0, c_len = 2, c_count = 1, c_payload = [11, 12]\<rparr>],
            cwc_created = 2, cwc_fetched = 4, cwc_touched = 4, cwc_alloced = 4\<rparr>,
            Payload [13, 14])
   \<and> clamma_weight_cache True
       \<lparr>model_access = CLAMMA_MODEL_ACCESS_MALLOC_CACHE, cache_limit = 3, data = 0,
        fd_bytes = [11, 12, 13, 14, 15]\<rparr>
       \<lparr>cwc_head = [\<lparr>c_offset = 2, c_len = 2, c_count = 1, c_payload = [13, 14]\<rparr>,
                    \<lparr>c_offset = 0, c_len = 2, c_count = 1, c_payload = [11, 12]\<rparr>],
        cwc_created = 2, cwc_fetched = 4, cwc_touched = 4, cwc_alloced = 4\<rparr> 4 1
     = Inr (\<lparr>cwc_head = [\<lparr>c_offset = 4, c_len = 1, c_count = 1, c_payload = [15]\<rparr>,
                        \<lparr>c_offset = 0, c_len = 2, c_count = 1, c_payload = [11, 12]\<rparr>],
            cwc_created = 3, cwc_fetched = 5, cwc_touched = 5, cwc_alloced = 3\<rparr>,
            Payload [15])"
  by code_simp

section \<open>Ending and destroying sessions\<close>

text \<open>
  C1 (as the code has it). The driver steps the head of the registry. When its client is
  gone, the session is destroyed and nothing reaches the callback: the EOS piece is handed
  to \<^verbatim>\<open>clamma_session_issue\<close>, which returns at once for a gone client. When the client is
  there and this step brings \<open>pos\<close> up to \<open>limit\<close>, the EOS piece is delivered to the
  session's callback and the session is destroyed. When the client is there and \<open>pos\<close> is at
  \<open>limit\<close> already on entry, the call returns 0 and changes nothing.
\<close>

theorem step_next_end_of_session:
  assumes "sess_head w = ts # rest"
  shows "(ts_client_gone ts \<longrightarrow>
            clamma_sessions_step_next fwd dec w
              = Inr (w\<lparr>sess_head := rest\<rparr>, if rest = [] then 0 else 1))
       \<and> (\<not> ts_client_gone ts \<and> ts_pos ts < ts_limit ts \<and> ts_limit ts \<le> ts_pos ts + 1 \<longrightarrow>
            clamma_sessions_step_next fwd dec w
              = Inr (w\<lparr>sess_head := rest,
                       issued := issued w @ (if ts_issue_cb ts
                                             then [(ts_addr ts, [char_of (nat TOK_EOS)])]
                                             else [])\<rparr>,
                     if rest = [] then 0 else 1))
       \<and> (\<not> ts_client_gone ts \<and> ts_limit ts \<le> ts_pos ts \<longrightarrow>
            clamma_sessions_step_next fwd dec w = Inr (w, 0))"
proof (intro conjI impI)
  assume "ts_client_gone ts"
  then show "clamma_sessions_step_next fwd dec w
              = Inr (w\<lparr>sess_head := rest\<rparr>, if rest = [] then 0 else 1)"
    using assms
    by (simp add: clamma_sessions_step_next_def session_eol_def clamma_session_issue_def
          clamma_session_destroy_def)
next
  assume a: "\<not> ts_client_gone ts \<and> ts_pos ts < ts_limit ts \<and> ts_limit ts \<le> ts_pos ts + 1"
  let ?ts1 = "ts\<lparr>ts_tnext := fwd ts (ts_pos ts + 1 < ts_ct ts) (ts_token ts) (ts_pos ts),
                  ts_pos := ts_pos ts + 1\<rparr>"
  have step: "clamma_sessions_step_next fwd dec w = session_eol (w\<lparr>sess_head := ?ts1 # rest\<rparr>) ?ts1"
    using assms a by (simp add: clamma_sessions_step_next_def Let_def)
  have eos: "clamma_session_issue ?ts1 [char_of (nat TOK_EOS)] (issued w)
      = issued w @ (if ts_issue_cb ts then [(ts_addr ts, [char_of (nat TOK_EOS)])] else [])"
    using a by (simp add: clamma_session_issue_def TOK_EOS_def)
  show "clamma_sessions_step_next fwd dec w
              = Inr (w\<lparr>sess_head := rest,
                       issued := issued w @ (if ts_issue_cb ts
                                             then [(ts_addr ts, [char_of (nat TOK_EOS)])]
                                             else [])\<rparr>,
                     if rest = [] then 0 else 1)"
    unfolding step session_eol_def
    using eos by (simp add: clamma_session_destroy_def)
next
  assume "\<not> ts_client_gone ts \<and> ts_limit ts \<le> ts_pos ts"
  then show "clamma_sessions_step_next fwd dec w = Inr (w, 0)"
    using assms by (simp add: clamma_sessions_step_next_def)
qed

text \<open>The three cases of the theorem, each at a registry of its own.\<close>

theorem step_next_end_of_session_witness:
  "clamma_sessions_step_next (\<lambda>ts is_prompt token pos. 5) (\<lambda>prev token. ''x'')
      \<lparr>sess_head = [(session_zero 1)\<lparr>ts_pos := 2, ts_limit := 64, ts_issue_cb := True,
                                      ts_client_gone := True\<rparr>, session_zero 2],
       issued = []\<rparr>
     = Inr (\<lparr>sess_head = [session_zero 2], issued = []\<rparr>, 1)
   \<and> clamma_sessions_step_next (\<lambda>ts is_prompt token pos. 5) (\<lambda>prev token. ''x'')
      \<lparr>sess_head = [(session_zero 1)\<lparr>ts_pos := 63, ts_limit := 64, ts_issue_cb := True\<rparr>],
       issued = []\<rparr>
     = Inr (\<lparr>sess_head = [], issued = [(1, [char_of (nat TOK_EOS)])]\<rparr>, 0)
   \<and> clamma_sessions_step_next (\<lambda>ts is_prompt token pos. 5) (\<lambda>prev token. ''x'')
      \<lparr>sess_head = [session_zero 1, session_zero 2], issued = []\<rparr>
     = Inr (\<lparr>sess_head = [session_zero 1, session_zero 2], issued = []\<rparr>, 0)"
proof -
  let ?gone = "(session_zero 1)\<lparr>ts_pos := 2, ts_limit := 64, ts_issue_cb := True,
                                 ts_client_gone := True\<rparr>"
  let ?last = "(session_zero 1)\<lparr>ts_pos := 63, ts_limit := 64, ts_issue_cb := True\<rparr>"
  have g: "ts_client_gone ?gone" by (simp add: session_zero_def)
  have l: "\<not> ts_client_gone ?last \<and> ts_pos ?last < ts_limit ?last
           \<and> ts_limit ?last \<le> ts_pos ?last + 1"
    by (simp add: session_zero_def)
  have z: "\<not> ts_client_gone (session_zero 1) \<and> ts_limit (session_zero 1) \<le> ts_pos (session_zero 1)"
    by (simp add: session_zero_def)
  note a = step_next_end_of_session
      [of "\<lparr>sess_head = [?gone, session_zero 2], issued = []\<rparr>" ?gone "[session_zero 2]",
       THEN conjunct1, rule_format, OF _ g]
  note b = step_next_end_of_session
      [of "\<lparr>sess_head = [?last], issued = []\<rparr>" ?last "[]",
       THEN conjunct2, THEN conjunct1, rule_format, OF _ l]
  note c = step_next_end_of_session
      [of "\<lparr>sess_head = [session_zero 1, session_zero 2], issued = []\<rparr>" "session_zero 1"
          "[session_zero 2]",
       THEN conjunct2, THEN conjunct2, rule_format, OF _ z]
  show ?thesis
    using a b c by (simp add: session_zero_def)
qed

text \<open>
  A cancelled session with a callback is destroyed without an EOS piece delivered; and a
  session with \<open>pos = limit\<close> on entry is neither destroyed nor sent an EOS piece.
\<close>

theorem step_next_gone_client_gets_no_eos:
  "clamma_sessions_step_next (\<lambda>ts is_prompt token pos. 5) (\<lambda>prev token. ''x'')
      \<lparr>sess_head = [(session_zero 1)\<lparr>ts_pos := 2, ts_limit := 64, ts_issue_cb := True,
                                      ts_client_gone := True\<rparr>],
       issued = []\<rparr>
     = Inr (\<lparr>sess_head = [], issued = []\<rparr>, 0)
   \<and> clamma_sessions_step_next (\<lambda>ts is_prompt token pos. 5) (\<lambda>prev token. ''x'')
      \<lparr>sess_head = [(session_zero 1)\<lparr>ts_issue_cb := True\<rparr>], issued = []\<rparr>
     = Inr (\<lparr>sess_head = [(session_zero 1)\<lparr>ts_issue_cb := True\<rparr>], issued = []\<rparr>, 0)"
  by (simp add: clamma_sessions_step_next_def session_eol_def clamma_session_issue_def
        clamma_session_destroy_def session_zero_def)

text \<open>
  C8. Destroying the middle one of three registered sessions unlinks the last one: the
  destroyed session stays in the registry and another session is lost from it.
\<close>

theorem session_destroy_unlinks_last_not_self:
  "clamma_session_destroy 2 [session_zero 1, session_zero 2, session_zero 3]
     = Inr [session_zero 1, session_zero 2]"
  by (simp add: clamma_session_destroy_def session_zero_def)

section \<open>Encoding no text\<close>

text \<open>
  C9 (as the code has it). With a null text pointer the encoder returns null. With the empty
  string it returns a token list, not null: BOS if asked for, no dummy prefix, then EOS if
  asked for.
\<close>

theorem encode_null_and_empty:
  "clamma_vocab_encode malloc_tokens_ok malloc_buffer_ok v None bos eos = Inr None
   \<and> clamma_vocab_encode True True v (Some []) bos eos
       = Inr (Some ((if bos then [TOK_BOS] else []) @ (if eos then [TOK_EOS] else [])))"
proof
  show "clamma_vocab_encode malloc_tokens_ok malloc_buffer_ok v None bos eos = Inr None"
    by (simp add: clamma_vocab_encode_def)
next
  have "merge_loop v tokens = Inr tokens" if "length tokens \<le> 2" for tokens
    using that by (subst merge_loop.simps) simp
  then have "merge_loop v (if bos then [TOK_BOS] else []) = Inr (if bos then [TOK_BOS] else [])"
    by simp
  then show "clamma_vocab_encode True True v (Some []) bos eos
       = Inr (Some ((if bos then [TOK_BOS] else []) @ (if eos then [TOK_EOS] else [])))"
    by (simp add: clamma_vocab_encode_def)
qed

text \<open>The empty string with both flags set encodes to \<open>[BOS, EOS]\<close>.\<close>

theorem encode_empty_text_is_not_null:
  "clamma_vocab_encode True True
      \<lparr>vocab = [''<unk>'', ''<s>'', ''</s>'', '' ''], scores = [0, 0, 0, 0],
       sorted_vocab = [('' '', 3), (''</s>'', 2), (''<s>'', 1), (''<unk>'', 0)],
       v_size = 4, max_token_length = 5\<rparr> (Some '''') True True = Inr (Some [1, 2])"
proof -
  have "merge_loop v [TOK_BOS] = Inr [TOK_BOS]" for v
    by (subst merge_loop.simps) simp
  then show ?thesis
    by (simp add: clamma_vocab_encode_def TOK_BOS_def TOK_EOS_def)
qed

section \<open>The key/value cache in the forward pass\<close>

subsection \<open>Writes through a pointer\<close>

lemma write_at_length [simp]: "length (write_at buf off vals) = length buf"
proof -
  have "length (fold (\<lambda>i b. b[off + i := vals ! i]) is buf) = length buf" for "is"
    by (induction "is" arbitrary: buf) auto
  then show ?thesis by (simp add: write_at_def)
qed





lemma store_other [simp]:
  "n_fetches (store p vals s) = n_fetches s"
  "s_xq (store p vals s) = s_xq s"
  "s_hq (store p vals s) = s_hq s"
  by (cases "fst p"; simp add: store_def)+

lemma cache_within_refl [simp]: "cache_within A s s"
  by (simp add: cache_within_def)



lemma cache_within_mono: "cache_within A s s' \<Longrightarrow> A \<subseteq> B \<Longrightarrow> cache_within B s s'"
  by (auto simp: cache_within_def)



lemma cache_within_fetch [simp]: "cache_within A s (fst (weight_fetch fetch_ok s))"
  by (simp add: weight_fetch_def cache_within_def)


lemma step_within_mono: "step_within A f \<Longrightarrow> A \<subseteq> B \<Longrightarrow> step_within B f"
  unfolding step_within_def using cache_within_mono by blast













subsection \<open>The stages of a layer write only the row of the position\<close>









subsection \<open>Running the stages\<close>











subsection \<open>The float model returns when every fetch succeeds\<close>



subsection \<open>The cache after a call\<close>




end
